theory Spec2Isabelle
  imports Main
begin

section \<open>Characters and the string methods used by chunk\_textbook.py\<close>

text \<open>
  A Python \<open>str\<close> is modelled as a HOL \<open>string\<close>, and a \<open>char\<close> is read as the code
  point with the same number, so the model covers the code points 0..255. The three
  character classes below are the ones CPython uses on that range: \<open>str.strip()\<close>,
  \<open>str.split()\<close> and the regular expression class \<open>\s\<close> all test \<open>Py_UNICODE_ISSPACE\<close>;
  \<open>\d\<close> tests \<open>Py_UNICODE_ISDECIMAL\<close>; \<open>\w\<close> tests \<open>Py_UNICODE_ISALNUM\<close> or the
  underscore.
\<close>

definition NL :: char where
  "NL = CHR 0x0A"

definition isspace :: "char \<Rightarrow> bool" where
  "isspace c =
     (let n = (of_char c :: nat)
      in (9 \<le> n \<and> n \<le> 13) \<or> (28 \<le> n \<and> n \<le> 32) \<or> n = 133 \<or> n = 160)"

definition isdecimal :: "char \<Rightarrow> bool" where
  "isdecimal c = (let n = (of_char c :: nat) in 48 \<le> n \<and> n \<le> 57)"

definition isword :: "char \<Rightarrow> bool" where
  "isword c =
     (let n = (of_char c :: nat)
      in (48 \<le> n \<and> n \<le> 57) \<or> (65 \<le> n \<and> n \<le> 90) \<or> n = 95 \<or> (97 \<le> n \<and> n \<le> 122)
         \<or> n = 170 \<or> n = 178 \<or> n = 179 \<or> n = 181 \<or> n = 185 \<or> n = 186
         \<or> (188 \<le> n \<and> n \<le> 190) \<or> (192 \<le> n \<and> n \<le> 214)
         \<or> (216 \<le> n \<and> n \<le> 246) \<or> (248 \<le> n \<and> n \<le> 255))"

text \<open>The simple lower-case mapping, which \<open>re.IGNORECASE\<close> applies to both sides.\<close>

definition tolower :: "char \<Rightarrow> char" where
  "tolower c =
     (let n = (of_char c :: nat)
      in if (65 \<le> n \<and> n \<le> 90) \<or> (192 \<le> n \<and> n \<le> 222 \<and> n \<noteq> 215)
         then char_of (n + 32) else c)"

text \<open>\<open>s.strip()\<close>, \<open>s.rstrip("\n")\<close>, \<open>sep.join(xs)\<close> and \<open>s.split()\<close>.\<close>

definition str_strip :: "string \<Rightarrow> string" where
  "str_strip s = rev (dropWhile isspace (rev (dropWhile isspace s)))"

definition str_rstrip_nl :: "string \<Rightarrow> string" where
  "str_rstrip_nl s = rev (dropWhile (\<lambda>c. c = NL) (rev s))"

fun str_join :: "string \<Rightarrow> string list \<Rightarrow> string" where
  "str_join sep [] = []"
| "str_join sep [x] = x"
| "str_join sep (x # y # ys) = x @ sep @ str_join sep (y # ys)"

text \<open>
  \<open>s.split()\<close> with no argument: the maximal runs of non-whitespace characters, in order.
  The first argument is the word being read.
\<close>

fun split_ws :: "string \<Rightarrow> string \<Rightarrow> string list" where
  "split_ws w [] = (if w = [] then [] else [w])"
| "split_ws w (c # cs) =
     (if isspace c then (if w = [] then split_ws [] cs else w # split_ws [] cs)
      else split_ws (w @ [c]) cs)"

definition str_split :: "string \<Rightarrow> string list" where
  "str_split s = split_ws [] s"

section \<open>The three heading patterns\<close>

text \<open>
  \<open>GLOSSARY_RE = re.compile(r"\bGLOSSARY\b", re.IGNORECASE)\<close>,
  \<open>CHAPTER_RE = re.compile(r"^\s*CHAPTER\s+(\d+)\.", re.IGNORECASE)\<close>,
  \<open>SECTION_RE = re.compile(r"^\s*(\d+(?:\.\d+)+)\s+(.+)$")\<close>.
  Each pattern is modelled by a matcher that follows the backtracking search of \<open>re\<close>.
\<close>

fun match_literal_ci :: "string \<Rightarrow> string \<Rightarrow> string option" where
  "match_literal_ci [] s = Some s"
| "match_literal_ci (p # ps) [] = None"
| "match_literal_ci (p # ps) (c # cs) =
     (if tolower c = tolower p then match_literal_ci ps cs else None)"

definition opt_hd :: "string \<Rightarrow> char option" where
  "opt_hd s = (case s of [] \<Rightarrow> None | c # _ \<Rightarrow> Some c)"

text \<open>\<open>\b\<close>: exactly one of the characters before and after the position is a word character.\<close>

definition word_boundary :: "char option \<Rightarrow> char option \<Rightarrow> bool" where
  "word_boundary p n =
     ((case p of None \<Rightarrow> False | Some c \<Rightarrow> isword c)
        \<noteq> (case n of None \<Rightarrow> False | Some c \<Rightarrow> isword c))"

text \<open>The pattern \<open>\bGLOSSARY\b\<close> at the start of \<open>s\<close>, the character before being \<open>prev\<close>.\<close>

definition glossary_at :: "char option \<Rightarrow> string \<Rightarrow> bool" where
  "glossary_at prev s =
     (case match_literal_ci ''GLOSSARY'' s of
        None \<Rightarrow> False
      | Some rest \<Rightarrow>
          word_boundary prev (opt_hd s) \<and> word_boundary (Some (last (take 8 s))) (opt_hd rest))"

text \<open>\<open>GLOSSARY_RE.search\<close>: the pattern is tried at every position from left to right.\<close>

fun glossary_search_from :: "char option \<Rightarrow> string \<Rightarrow> bool" where
  "glossary_search_from prev [] = False"
| "glossary_search_from prev (c # cs) =
     (glossary_at prev (c # cs) \<or> glossary_search_from (Some c) cs)"

definition glossary_re_search :: "string \<Rightarrow> bool" where
  "glossary_re_search s = glossary_search_from None s"

text \<open>
  \<open>CHAPTER_RE.match\<close>, returning group 1. Each greedy repetition is followed by a
  character outside its class, so giving characters back never helps and the first
  attempt decides.
\<close>

definition chapter_re_match :: "string \<Rightarrow> string option" where
  "chapter_re_match s =
     (case match_literal_ci ''CHAPTER'' (dropWhile isspace s) of
        None \<Rightarrow> None
      | Some r1 \<Rightarrow>
          if takeWhile isspace r1 = [] then None
          else
            (let r2 = dropWhile isspace r1;
                 d = takeWhile isdecimal r2
             in if d = [] then None
                else (case dropWhile isdecimal r2 of
                        [] \<Rightarrow> None
                      | c # _ \<Rightarrow> if c = CHR ''.'' then Some d else None)))"

text \<open>The greedy repetition \<open>(?:\.\d+)*\<close>: what it consumes and what is left.\<close>

function dotted_groups :: "string \<Rightarrow> string \<times> string" where
  "dotted_groups [] = ([], [])"
| "dotted_groups (c # cs) =
     (if c = CHR ''.'' \<and> takeWhile isdecimal cs \<noteq> []
      then (let gr = dotted_groups (dropWhile isdecimal cs)
            in (c # takeWhile isdecimal cs @ fst gr, snd gr))
      else ([], c # cs))"
  by pat_completeness auto
termination
  by (relation "measure length") (auto simp: length_dropWhile_le less_Suc_eq_le)

text \<open>
  \<open>(.+)$\<close> at the start of \<open>t\<close>: \<open>.\<close> matches anything but a newline, and \<open>$\<close> holds at
  the end of the string or before a newline that ends it.
\<close>

definition dot_plus_end :: "string \<Rightarrow> bool" where
  "dot_plus_end t =
     (takeWhile (\<lambda>c. c \<noteq> NL) t \<noteq> []
      \<and> (dropWhile (\<lambda>c. c \<noteq> NL) t = [] \<or> dropWhile (\<lambda>c. c \<noteq> NL) t = [NL]))"

text \<open>
  \<open>SECTION_RE.match\<close>, returning groups 1 and 2. \<open>\s+\<close> first takes the whole run of
  whitespace and gives characters back one at a time until \<open>(.+)$\<close> matches.
\<close>

definition section_re_match :: "string \<Rightarrow> (string \<times> string) option" where
  "section_re_match s =
     (let s1 = dropWhile isspace s;
          d = takeWhile isdecimal s1;
          gr = dotted_groups (dropWhile isdecimal s1)
      in if d = [] \<or> fst gr = [] then None
         else
           (case find dot_plus_end
                   (map (\<lambda>j. drop j (snd gr))
                        (rev [1 ..< Suc (length (takeWhile isspace (snd gr)))])) of
              None \<Rightarrow> None
            | Some t \<Rightarrow> Some (d @ fst gr, takeWhile (\<lambda>c. c \<noteq> NL) t)))"

section \<open>Segments\<close>

text \<open>
  The dataclass \<open>Segment\<close>. The fields \<open>chapter\<close> and \<open>section\<close> are named \<open>chapter_lbl\<close>
  and \<open>section_lbl\<close> here; the property \<open>text\<close> is \<open>seg_text\<close>.
\<close>

record segment =
  start_line :: int
  end_line :: int
  chapter_lbl :: "string option"
  section_lbl :: "string option"
  heading :: "string option"
  text_lines :: "string list"

definition seg_text :: "segment \<Rightarrow> string" where
  "seg_text seg =
     str_join '' '' (map str_strip (filter (\<lambda>line. str_strip line \<noteq> []) (text_lines seg)))"

definition word_count :: "segment \<Rightarrow> int" where
  "word_count seg = (if seg_text seg = [] then 0 else int (length (str_split (seg_text seg))))"

section \<open>Heading Classifier\<close>

definition classify_heading ::
  "string \<Rightarrow> string option \<Rightarrow> string option \<times> string option \<times> string option" where
  "classify_heading line current_chapter =
     (let stripped = str_strip line
      in if glossary_re_search stripped then (Some ''Glossary'', None, Some ''Glossary'')
         else
           (case chapter_re_match stripped of
              Some chapter_num \<Rightarrow> (Some chapter_num, None, Some (''Chapter '' @ chapter_num))
            | None \<Rightarrow>
                (case section_re_match stripped of
                   Some (label, title) \<Rightarrow> (current_chapter, Some label, Some (str_strip title))
                 | None \<Rightarrow> (None, None, None))))"

section \<open>Segmenter\<close>

datatype py_error = UnboundLocalError

text \<open>
  The local variables of \<open>build_semantic_segments\<close>. The loop variable \<open>idx\<close> is unbound
  until the first iteration has run.
\<close>

record seg_state =
  segments :: "segment list"
  current_chapter :: "string option"
  current_section :: "string option"
  current_heading :: "string option"
  current_lines :: "string list"
  current_start_line :: int
  idx :: "int option"

definition init_state :: seg_state where
  "init_state =
     \<lparr>segments = [], current_chapter = None, current_section = None, current_heading = None,
      current_lines = [], current_start_line = 1, idx = None\<rparr>"

text \<open>The part of the loop body under \<open>if is_heading\<close>.\<close>

definition heading_update ::
  "int \<Rightarrow> string option \<times> string option \<times> string option \<Rightarrow> seg_state \<Rightarrow> seg_state" where
  "heading_update i csh st =
     (case csh of (chapter, section, hd_title) \<Rightarrow>
        (let st1 = (if current_lines st \<noteq> []
                    then st\<lparr>segments := segments st @
                               [\<lparr>start_line = current_start_line st, end_line = i - 1,
                                 chapter_lbl = current_chapter st,
                                 section_lbl = current_section st,
                                 heading = current_heading st,
                                 text_lines = current_lines st\<rparr>],
                            current_lines := []\<rparr>
                    else st);
             st2 = (if chapter \<noteq> None
                    then (if section = None
                          then st1\<lparr>current_chapter := chapter, current_section := None\<rparr>
                          else st1\<lparr>current_chapter := chapter\<rparr>)
                    else st1);
             st3 = (if section \<noteq> None then st2\<lparr>current_section := section\<rparr> else st2);
             st4 = (if hd_title \<noteq> None then st3\<lparr>current_heading := hd_title\<rparr> else st3)
         in st4\<lparr>current_start_line := i\<rparr>))"

text \<open>One iteration of \<open>for idx, line in enumerate(lines, start=1)\<close>.\<close>

definition seg_step :: "int \<Rightarrow> string \<Rightarrow> seg_state \<Rightarrow> seg_state" where
  "seg_step i line st =
     (let csh = classify_heading line (current_chapter st);
          is_heading = (fst csh \<noteq> None \<or> fst (snd csh) \<noteq> None \<or> snd (snd csh) \<noteq> None);
          st' = (if is_heading then heading_update i csh (st\<lparr>idx := Some i\<rparr>)
                 else st\<lparr>idx := Some i\<rparr>)
      in st'\<lparr>current_lines := current_lines st' @ [str_rstrip_nl line]\<rparr>)"

fun seg_loop :: "int \<Rightarrow> string list \<Rightarrow> seg_state \<Rightarrow> seg_state" where
  "seg_loop i [] st = st"
| "seg_loop i (line # rest) st = seg_loop (i + 1) rest (seg_step i line st)"

text \<open>
  The statement after the loop, which closes the final segment. It reads \<open>idx\<close>, and
  raises when \<open>idx\<close> is unbound.
\<close>

definition close_final :: "seg_state \<Rightarrow> py_error + segment list" where
  "close_final st =
     (if current_lines st \<noteq> []
      then (case idx st of
              None \<Rightarrow> Inl UnboundLocalError
            | Some i \<Rightarrow>
                Inr (segments st @
                     [\<lparr>start_line = current_start_line st, end_line = i,
                       chapter_lbl = current_chapter st,
                       section_lbl = current_section st,
                       heading = current_heading st,
                       text_lines = current_lines st\<rparr>]))
      else Inr (segments st))"

text \<open>The list \<open>segments\<close> as it stands before the \<open>return\<close> statement filters it.\<close>

definition emitted_segments :: "string list \<Rightarrow> py_error + segment list" where
  "emitted_segments lines = close_final (seg_loop 1 lines init_state)"

definition build_semantic_segments :: "string list \<Rightarrow> py_error + segment list" where
  "build_semantic_segments lines =
     (case emitted_segments lines of
        Inl e \<Rightarrow> Inl e
      | Inr segs \<Rightarrow> Inr (filter (\<lambda>seg. word_count seg > 0) segs))"

section \<open>Size Normalizer\<close>

subsection \<open>Splitting a large segment\<close>

definition is_sentence_end :: "char option \<Rightarrow> bool" where
  "is_sentence_end prev =
     (prev = Some (CHR ''.'') \<or> prev = Some (CHR ''!'') \<or> prev = Some (CHR ''?''))"

text \<open>
  \<open>re.split(r"(?<=[.!?])\s+", text)\<close>. The scan keeps the character before the current
  position for the look-behind and the piece read so far; a match takes the whole run of
  whitespace, and the search resumes after it.
\<close>

function sentence_split :: "char option \<Rightarrow> string \<Rightarrow> string \<Rightarrow> string list" where
  "sentence_split prev piece [] = [piece]"
| "sentence_split prev piece (c # cs) =
     (if is_sentence_end prev \<and> isspace c
      then piece # sentence_split (Some (last (c # takeWhile isspace cs))) []
                     (dropWhile isspace cs)
      else sentence_split (Some c) (piece @ [c]) cs)"
  by pat_completeness auto
termination
  by (relation "measure (\<lambda>(prev, piece, s). length s)")
     (auto simp: length_dropWhile_le less_Suc_eq_le)

definition re_split_sentences :: "string \<Rightarrow> string list" where
  "re_split_sentences txt = sentence_split None [] txt"

record split_state =
  chunks :: "segment list"
  current_sentences :: "string list"
  current_wc :: int

text \<open>The segment built from a group of sentences; the source writes it out twice.\<close>

definition new_seg :: "segment \<Rightarrow> string list \<Rightarrow> segment" where
  "new_seg seg sents =
     \<lparr>start_line = start_line seg, end_line = end_line seg,
      chapter_lbl = chapter_lbl seg, section_lbl = section_lbl seg,
      heading = heading seg, text_lines = [str_join '' '' sents]\<rparr>"

text \<open>One iteration of \<open>for sent in sentences\<close>.\<close>

definition split_step :: "segment \<Rightarrow> int \<Rightarrow> string \<Rightarrow> split_state \<Rightarrow> split_state" where
  "split_step seg max_words sent0 st =
     (let sent = str_strip sent0
      in if sent = [] then st
         else
           (let wc = int (length (str_split sent))
            in if current_sentences st \<noteq> [] \<and> current_wc st + wc > max_words
               then \<lparr>chunks = chunks st @ [new_seg seg (current_sentences st)],
                     current_sentences = [sent], current_wc = wc\<rparr>
               else \<lparr>chunks = chunks st,
                     current_sentences = current_sentences st @ [sent],
                     current_wc = current_wc st + wc\<rparr>))"

fun split_loop :: "segment \<Rightarrow> int \<Rightarrow> string list \<Rightarrow> split_state \<Rightarrow> split_state" where
  "split_loop seg max_words [] st = st"
| "split_loop seg max_words (sent # rest) st =
     split_loop seg max_words rest (split_step seg max_words sent st)"

definition split_large_segment :: "segment \<Rightarrow> int \<Rightarrow> segment list" where
  "split_large_segment seg max_words =
     (if word_count seg \<le> max_words then [seg]
      else
        (let st = split_loop seg max_words (re_split_sentences (seg_text seg))
                    \<lparr>chunks = [], current_sentences = [], current_wc = 0\<rparr>
         in if current_sentences st \<noteq> []
            then chunks st @ [new_seg seg (current_sentences st)]
            else chunks st))"

subsection \<open>Merging small segments\<close>

text \<open>
  Python's \<open>a or b\<close> on optional strings: \<open>None\<close> and the empty string are false, and
  \<open>a or b\<close> is \<open>a\<close> when \<open>a\<close> is true and \<open>b\<close> otherwise.
\<close>

definition truthy :: "string option \<Rightarrow> bool" where
  "truthy a = (a \<noteq> None \<and> a \<noteq> Some [])"

definition py_or :: "string option \<Rightarrow> string option \<Rightarrow> string option" where
  "py_or a b = (if truthy a then a else b)"

text \<open>The segment that replaces the buffer when the buffer absorbs the incoming segment.\<close>

definition combined_seg :: "segment \<Rightarrow> segment \<Rightarrow> segment" where
  "combined_seg b seg =
     \<lparr>start_line = start_line b, end_line = end_line seg,
      chapter_lbl = py_or (chapter_lbl b) (chapter_lbl seg),
      section_lbl = py_or (section_lbl b) (section_lbl seg),
      heading = py_or (heading b) (heading seg),
      text_lines = text_lines b @ text_lines seg\<rparr>"

record merge_state =
  merged :: "segment list"
  buffer_seg :: "segment option"

definition flush_buffer :: "merge_state \<Rightarrow> merge_state" where
  "flush_buffer st =
     (case buffer_seg st of
        None \<Rightarrow> st
      | Some b \<Rightarrow> \<lparr>merged = merged st @ [b], buffer_seg = None\<rparr>)"

text \<open>One iteration of the first \<open>for seg in segments\<close>.\<close>

definition merge_step :: "int \<Rightarrow> segment \<Rightarrow> merge_state \<Rightarrow> merge_state" where
  "merge_step min_words seg st =
     (case buffer_seg st of
        None \<Rightarrow> st\<lparr>buffer_seg := Some seg\<rparr>
      | Some b \<Rightarrow>
          if word_count b < min_words
          then st\<lparr>buffer_seg := Some (combined_seg b seg)\<rparr>
          else (flush_buffer st)\<lparr>buffer_seg := Some seg\<rparr>)"

fun merge_loop :: "int \<Rightarrow> segment list \<Rightarrow> merge_state \<Rightarrow> merge_state" where
  "merge_loop min_words [] st = st"
| "merge_loop min_words (seg # rest) st = merge_loop min_words rest (merge_step min_words seg st)"

text \<open>The list \<open>merged\<close> after the first loop and the last \<open>flush_buffer()\<close>.\<close>

definition merge_small :: "segment list \<Rightarrow> int \<Rightarrow> segment list" where
  "merge_small segs min_words =
     merged (flush_buffer (merge_loop min_words segs \<lparr>merged = [], buffer_seg = None\<rparr>))"

text \<open>The second loop, over \<open>merged\<close>, with \<open>final_chunks\<close> as accumulator.\<close>

fun split_pass :: "int \<Rightarrow> segment list \<Rightarrow> segment list \<Rightarrow> segment list" where
  "split_pass max_words [] final_chunks = final_chunks"
| "split_pass max_words (seg # rest) final_chunks =
     split_pass max_words rest
       (if word_count seg > max_words
        then final_chunks @ split_large_segment seg max_words
        else final_chunks @ [seg])"

definition enforce_size_constraints :: "segment list \<Rightarrow> int \<Rightarrow> int \<Rightarrow> segment list" where
  "enforce_size_constraints segs min_words max_words =
     split_pass max_words (merge_small segs min_words) []"

section \<open>Notions used to state the properties\<close>

text \<open>
  The segments \<open>segs\<close> have line ranges that follow one another without gap or overlap,
  from line \<open>a\<close> to line \<open>n\<close>: the first starts at \<open>a\<close>, each next one starts on the line
  after the end of the one before, none is empty, and the last ends at \<open>n\<close>.
\<close>

fun contiguous_cover :: "int \<Rightarrow> segment list \<Rightarrow> int \<Rightarrow> bool" where
  "contiguous_cover a [] n = (a = n + 1)"
| "contiguous_cover a (s # ss) n =
     (start_line s = a \<and> start_line s \<le> end_line s \<and> contiguous_cover (end_line s + 1) ss n)"

text \<open>
  The first label of a list that is present (neither \<open>None\<close> nor the empty string), and
  the last label of the list when none is present.
\<close>

fun first_present :: "string option list \<Rightarrow> string option" where
  "first_present [] = None"
| "first_present [x] = x"
| "first_present (x # y # ys) = (if truthy x then x else first_present (y # ys))"

text \<open>
  The segment \<open>c\<close> is what merging the run of consecutive segments \<open>run\<close> gives: the lines
  of the run in order, from the start of its first segment to the end of its last, under
  the first label present in the run.
\<close>

definition merged_from :: "segment list \<Rightarrow> segment \<Rightarrow> bool" where
  "merged_from run c =
     (run \<noteq> []
      \<and> start_line c = start_line (hd run) \<and> end_line c = end_line (last run)
      \<and> text_lines c = concat (map text_lines run)
      \<and> chapter_lbl c = first_present (map chapter_lbl run)
      \<and> section_lbl c = first_present (map section_lbl run)
      \<and> heading c = first_present (map heading run))"

text \<open>
  The line is a heading line: the classification has a field that is not \<open>None\<close>.
\<close>

definition is_heading_line :: "string \<Rightarrow> string option \<Rightarrow> bool" where
  "is_heading_line line ch = (classify_heading line ch \<noteq> (None, None, None))"

text \<open>
  The invariant of the Segmenter's loop before it reads line \<open>i\<close>: the closed segments
  cover the lines before \<open>current_start_line\<close>, the buffer holds the lines from there to
  \<open>i - 1\<close>, \<open>idx\<close> is the line read last, every closed segment but the first has words,
  and once a segment is closed the buffer starts with a line that has words.
\<close>

definition seg_inv :: "int \<Rightarrow> seg_state \<Rightarrow> bool" where
  "seg_inv i st =
     (contiguous_cover 1 (segments st) (current_start_line st - 1)
      \<and> int (length (current_lines st)) = i - current_start_line st
      \<and> (1 < i \<longrightarrow> idx st = Some (i - 1))
      \<and> list_all (\<lambda>s. 0 < word_count s) (tl (segments st))
      \<and> (segments st \<noteq> [] \<longrightarrow>
            current_lines st \<noteq> [] \<and> str_split (hd (current_lines st)) \<noteq> []))"

text \<open>
  A result \<open>c\<close> of splitting \<open>seg\<close> respects \<open>max_words\<close>: it has at most \<open>max_words\<close>
  words, or it is one sentence piece of \<open>seg\<close>, stripped, that has more than \<open>max_words\<close>
  words by itself.
\<close>

definition within_max :: "segment \<Rightarrow> int \<Rightarrow> segment \<Rightarrow> bool" where
  "within_max seg max_words c =
     (word_count c \<le> max_words
      \<or> (\<exists>s \<in> set (re_split_sentences (seg_text seg)).
            text_lines c = [str_strip s] \<and> max_words < int (length (str_split (str_strip s)))))"

text \<open>
  The invariant of the loop of \<open>split_large_segment\<close>: \<open>current_wc\<close> counts the words of
  the group being filled, the group is empty, within \<open>max_words\<close>, or a single oversized
  sentence piece, and every closed group respects \<open>max_words\<close>.
\<close>

definition split_inv :: "segment \<Rightarrow> int \<Rightarrow> split_state \<Rightarrow> bool" where
  "split_inv seg max_words st =
     (current_wc st = int (length (concat (map str_split (current_sentences st))))
      \<and> (current_sentences st = [] \<or> current_wc st \<le> max_words
          \<or> (\<exists>s \<in> set (re_split_sentences (seg_text seg)).
                current_sentences st = [str_strip s]
                \<and> max_words < int (length (str_split (str_strip s)))))
      \<and> list_all (within_max seg max_words) (chunks st))"

text \<open>
  The whitespace-separated words of a segment's text, and the words a state of the
  split loop holds: those of the closed groups, then those of the group being filled.
\<close>

definition seg_words :: "segment \<Rightarrow> string list" where
  "seg_words seg = str_split (seg_text seg)"

definition split_words :: "split_state \<Rightarrow> string list" where
  "split_words st =
     concat (map seg_words (chunks st)) @ concat (map str_split (current_sentences st))"

section \<open>Words of joined, stripped and split strings\<close>

lemma isspace_blank: "isspace (CHR '' '')"
  by (simp add: isspace_def)

lemma split_ws_all_space:
  "\<forall>c\<in>set t. isspace c \<Longrightarrow> split_ws w t = split_ws w []"
  by (induction t arbitrary: w) auto

lemma split_ws_trailing:
  "\<forall>c\<in>set t. isspace c \<Longrightarrow> split_ws w (s @ t) = split_ws w s"
proof (induction s arbitrary: w)
  case Nil
  then show ?case by (simp add: split_ws_all_space)
next
  case (Cons c s)
  then show ?case by simp
qed

lemma split_ws_append_space:
  "isspace sp \<Longrightarrow> split_ws w (a @ sp # b) = split_ws w a @ split_ws [] b"
  by (induction a arbitrary: w) auto

lemma str_split_append_space:
  "isspace sp \<Longrightarrow> str_split (a @ sp # b) = str_split a @ str_split b"
  by (simp add: str_split_def split_ws_append_space)

lemma str_split_dropWhile: "str_split (dropWhile isspace s) = str_split s"
  by (induction s) (auto simp: str_split_def)

lemma str_split_strip: "str_split (str_strip s) = str_split s"
proof -
  let ?s = "dropWhile isspace s"
  have "?s = rev (dropWhile isspace (rev ?s)) @ rev (takeWhile isspace (rev ?s))"
    by (metis rev_append rev_rev_ident takeWhile_dropWhile_id)
  moreover have "\<forall>c\<in>set (rev (takeWhile isspace (rev ?s))). isspace c"
    by (auto dest: set_takeWhileD)
  ultimately have "str_split ?s = str_split (rev (dropWhile isspace (rev ?s)))"
    unfolding str_split_def by (metis split_ws_trailing)
  then show ?thesis
    by (simp add: str_strip_def str_split_dropWhile)
qed

lemma str_split_blank: "str_strip s = [] \<Longrightarrow> str_split s = []"
  using str_split_strip [of s] by (simp add: str_split_def)

lemma str_split_join: "str_split (str_join '' '' xs) = concat (map str_split xs)"
proof (induction "'' ''" xs rule: str_join.induct)
  case 1
  then show ?case by (simp add: str_split_def)
next
  case (2 x)
  then show ?case by simp
next
  case (3 x y ys)
  then show ?case
    using str_split_append_space [OF isspace_blank, of x "str_join '' '' (y # ys)"] by simp
qed

lemma str_split_stripped_lines:
  "concat (map str_split (map str_strip (filter (\<lambda>line. str_strip line \<noteq> []) ls)))
   = concat (map str_split ls)"
  by (induction ls) (auto simp: str_split_strip str_split_blank)

lemma str_split_seg_text:
  "str_split (seg_text seg) = concat (map str_split (text_lines seg))"
  by (simp only: seg_text_def str_split_join str_split_stripped_lines)

lemma word_count_eq:
  "word_count seg = int (length (concat (map str_split (text_lines seg))))"
proof (cases "seg_text seg = []")
  case True
  then have "concat (map str_split (text_lines seg)) = []"
    using str_split_seg_text [of seg] by (simp add: str_split_def)
  with True show ?thesis by (simp add: word_count_def)
next
  case False
  then show ?thesis by (simp add: word_count_def str_split_seg_text)
qed

lemma str_split_sentence_split:
  "concat (map str_split (sentence_split prev piece s)) = str_split (piece @ s)"
proof (induction prev piece s rule: sentence_split.induct)
  case (1 prev piece)
  then show ?case by simp
next
  case (2 prev piece c cs)
  show ?case
  proof (cases "is_sentence_end prev \<and> isspace c")
    case True
    then show ?thesis
      using 2 by (simp add: str_split_append_space str_split_dropWhile)
  next
    case False
    then show ?thesis using 2 by auto
  qed
qed

section \<open>Segmenter: the empty input and the worked example\<close>

text \<open>
  Claim C10. On an input of zero lines the loop body never runs: the buffer
  \<open>current_lines\<close> stays empty and \<open>idx\<close> stays unbound, so the close of the final segment,
  the only statement that reads \<open>idx\<close>, is skipped and \<open>build_semantic_segments\<close> returns the
  empty list without raising. \<open>enforce_size_constraints\<close> maps the empty list to the empty
  list for every \<open>min_words\<close> and \<open>max_words\<close>.
\<close>

theorem empty_input_returns_empty:
  "current_lines (seg_loop 1 [] init_state) = []
   \<and> idx (seg_loop 1 [] init_state) = None
   \<and> build_semantic_segments [] = Inr []
   \<and> enforce_size_constraints [] min_words max_words = []"
  by (simp add: build_semantic_segments_def emitted_segments_def close_final_def
      init_state_def enforce_size_constraints_def merge_small_def flush_buffer_def)

text \<open>
  Claim C9, as stated, fails: on the four example lines the Segmenter does not raise,
  but it returns 2 segments, not 3, and the text of the first is not \<open>CHAPTER 1.\<close> alone.
\<close>

theorem example_not_three_segments:
  "\<not> isl (build_semantic_segments
            [''CHAPTER 1.'' @ [NL], ''Intro text here.'' @ [NL],
             ''1.1 Basics'' @ [NL], ''More content.'' @ [NL]])
   \<and> length (projr (build_semantic_segments
            [''CHAPTER 1.'' @ [NL], ''Intro text here.'' @ [NL],
             ''1.1 Basics'' @ [NL], ''More content.'' @ [NL]])) \<noteq> 3
   \<and> seg_text (projr (build_semantic_segments
            [''CHAPTER 1.'' @ [NL], ''Intro text here.'' @ [NL],
             ''1.1 Basics'' @ [NL], ''More content.'' @ [NL]]) ! 0) \<noteq> ''CHAPTER 1.''"
  by code_simp

text \<open>
  Claim C9, amended. On the four example lines \<open>build_semantic_segments\<close> yields exactly
  2 segments. The body line after the chapter heading is appended to the segment that
  the heading line started: the first segment covers lines 1 to 2 with chapter \<open>1\<close>, no
  section, heading \<open>Chapter 1\<close> and text \<open>CHAPTER 1. Intro text here.\<close>; the second covers
  lines 3 to 4 with chapter \<open>1\<close>, section \<open>1.1\<close>, heading \<open>Basics\<close> and text
  \<open>1.1 Basics More content.\<close>
\<close>

theorem example_two_segments:
  "build_semantic_segments
     [''CHAPTER 1.'' @ [NL], ''Intro text here.'' @ [NL],
      ''1.1 Basics'' @ [NL], ''More content.'' @ [NL]]
   = Inr [\<lparr>start_line = 1, end_line = 2, chapter_lbl = Some ''1'', section_lbl = None,
           heading = Some ''Chapter 1'',
           text_lines = [''CHAPTER 1.'', ''Intro text here.'']\<rparr>,
          \<lparr>start_line = 3, end_line = 4, chapter_lbl = Some ''1'', section_lbl = Some ''1.1'',
           heading = Some ''Basics'',
           text_lines = [''1.1 Basics'', ''More content.'']\<rparr>]
   \<and> seg_text \<lparr>start_line = 1, end_line = 2, chapter_lbl = Some ''1'', section_lbl = None,
           heading = Some ''Chapter 1'',
           text_lines = [''CHAPTER 1.'', ''Intro text here.'']\<rparr>
       = ''CHAPTER 1. Intro text here.''
   \<and> seg_text \<lparr>start_line = 3, end_line = 4, chapter_lbl = Some ''1'', section_lbl = Some ''1.1'',
           heading = Some ''Basics'',
           text_lines = [''1.1 Basics'', ''More content.'']\<rparr>
       = ''1.1 Basics More content.''"
  by code_simp

section \<open>Split-large pass: provenance of the pieces\<close>

lemma split_step_chunks:
  "c \<in> set (chunks (split_step seg mx sent st)) \<Longrightarrow>
     c \<in> set (chunks st) \<or> c = new_seg seg (current_sentences st)"
  by (auto simp: split_step_def Let_def split: if_splits)

lemma split_loop_chunks:
  "c \<in> set (chunks (split_loop seg mx sents st)) \<Longrightarrow>
     c \<in> set (chunks st) \<or> (\<exists>g. c = new_seg seg g)"
proof (induction sents arbitrary: st)
  case Nil
  then show ?case by simp
next
  case (Cons sent sents)
  from Cons.IH [of "split_step seg mx sent st"] Cons.prems
  show ?case by (auto dest: split_step_chunks)
qed

lemma split_large_segment_shape:
  "c \<in> set (split_large_segment seg mx) \<Longrightarrow> c = seg \<or> (\<exists>g. c = new_seg seg g)"
  by (auto simp: split_large_segment_def Let_def split: if_splits dest: split_loop_chunks)

text \<open>
  Claim C8. Every segment that \<open>split_large_segment\<close> returns carries the \<open>start_line\<close>,
  \<open>end_line\<close>, \<open>chapter\<close>, \<open>section\<close> and \<open>heading\<close> of the segment it was given; the pieces
  differ from it in their text only.
\<close>

theorem split_keeps_provenance:
  "\<forall>c \<in> set (split_large_segment seg max_words).
     start_line c = start_line seg \<and> end_line c = end_line seg
     \<and> chapter_lbl c = chapter_lbl seg \<and> section_lbl c = section_lbl seg
     \<and> heading c = heading seg"
proof
  fix c
  assume "c \<in> set (split_large_segment seg max_words)"
  then have "c = seg \<or> (\<exists>g. c = new_seg seg g)"
    by (rule split_large_segment_shape)
  then show "start_line c = start_line seg \<and> end_line c = end_line seg
     \<and> chapter_lbl c = chapter_lbl seg \<and> section_lbl c = section_lbl seg
     \<and> heading c = heading seg"
    by (auto simp: new_seg_def)
qed

text \<open>
  A segment of three two-word sentences on lines 3 to 9, split with \<open>max_words = 2\<close>,
  gives three pieces, each on lines 3 to 9 under the same labels.
\<close>

theorem split_keeps_provenance_witness:
  "split_large_segment
     \<lparr>start_line = 3, end_line = 9, chapter_lbl = Some ''1'', section_lbl = Some ''1.1'',
      heading = Some ''Basics'', text_lines = [''a b. c d.'', ''e f.'']\<rparr> 2
   = [\<lparr>start_line = 3, end_line = 9, chapter_lbl = Some ''1'', section_lbl = Some ''1.1'',
       heading = Some ''Basics'', text_lines = [''a b.'']\<rparr>,
      \<lparr>start_line = 3, end_line = 9, chapter_lbl = Some ''1'', section_lbl = Some ''1.1'',
       heading = Some ''Basics'', text_lines = [''c d.'']\<rparr>,
      \<lparr>start_line = 3, end_line = 9, chapter_lbl = Some ''1'', section_lbl = Some ''1.1'',
       heading = Some ''Basics'', text_lines = [''e f.'']\<rparr>]
   \<and> list_all
        (\<lambda>c. start_line c = 3 \<and> end_line c = 9
             \<and> chapter_lbl c = Some ''1'' \<and> section_lbl c = Some ''1.1''
             \<and> heading c = Some ''Basics'')
        (split_large_segment
          \<lparr>start_line = 3, end_line = 9, chapter_lbl = Some ''1'', section_lbl = Some ''1.1'',
           heading = Some ''Basics'', text_lines = [''a b. c d.'', ''e f.'']\<rparr> 2)"
proof (rule conjI)
  show "split_large_segment
     \<lparr>start_line = 3, end_line = 9, chapter_lbl = Some ''1'', section_lbl = Some ''1.1'',
      heading = Some ''Basics'', text_lines = [''a b. c d.'', ''e f.'']\<rparr> 2
   = [\<lparr>start_line = 3, end_line = 9, chapter_lbl = Some ''1'', section_lbl = Some ''1.1'',
       heading = Some ''Basics'', text_lines = [''a b.'']\<rparr>,
      \<lparr>start_line = 3, end_line = 9, chapter_lbl = Some ''1'', section_lbl = Some ''1.1'',
       heading = Some ''Basics'', text_lines = [''c d.'']\<rparr>,
      \<lparr>start_line = 3, end_line = 9, chapter_lbl = Some ''1'', section_lbl = Some ''1.1'',
       heading = Some ''Basics'', text_lines = [''e f.'']\<rparr>]"
    by code_simp
next
  from split_keeps_provenance
    [of "\<lparr>start_line = 3, end_line = 9, chapter_lbl = Some ''1'', section_lbl = Some ''1.1'',
          heading = Some ''Basics'', text_lines = [''a b. c d.'', ''e f.'']\<rparr>" 2]
  show "list_all
        (\<lambda>c. start_line c = 3 \<and> end_line c = 9
             \<and> chapter_lbl c = Some ''1'' \<and> section_lbl c = Some ''1.1''
             \<and> heading c = Some ''Basics'')
        (split_large_segment
          \<lparr>start_line = 3, end_line = 9, chapter_lbl = Some ''1'', section_lbl = Some ''1.1'',
           heading = Some ''Basics'', text_lines = [''a b. c d.'', ''e f.'']\<rparr> 2)"
    by (simp add: list_all_iff)
qed

section \<open>Merge-small pass\<close>

lemma merge_step_Some:
  "buffer_seg st = Some b \<Longrightarrow>
   merge_step mn seg st =
     (if word_count b < mn then st\<lparr>buffer_seg := Some (combined_seg b seg)\<rparr>
      else \<lparr>merged = merged st @ [b], buffer_seg = Some seg\<rparr>)"
  by (simp add: merge_step_def flush_buffer_def)

lemma merge_step_None:
  "buffer_seg st = None \<Longrightarrow> merge_step mn seg st = st\<lparr>buffer_seg := Some seg\<rparr>"
  by (simp add: merge_step_def)

lemma word_count_combined_seg:
  "word_count (combined_seg b seg) = word_count b + word_count seg"
  by (simp add: word_count_eq combined_seg_def)

text \<open>
  Claim C4. With a segment \<open>b\<close> in the buffer, the merge step tests the word count of \<open>b\<close>
  alone. Below \<open>min_words\<close> the incoming segment is combined into the buffer, whatever the
  combined count: the lines of \<open>b\<close> followed by those of the incoming segment, from the
  start of \<open>b\<close> to the end of the incoming segment; nothing is emitted. Otherwise \<open>b\<close> is
  emitted and the incoming segment becomes the buffer. In particular three segments of
  10, 10 and 200 words merge under \<open>min_words = 150\<close> into one segment of 220 words.
\<close>

theorem merge_decision_on_buffer_alone:
  "(buffer_seg st = Some b \<and> word_count b < min_words \<longrightarrow>
      merge_step min_words seg st =
        st\<lparr>buffer_seg := Some
             \<lparr>start_line = start_line b, end_line = end_line seg,
              chapter_lbl = py_or (chapter_lbl b) (chapter_lbl seg),
              section_lbl = py_or (section_lbl b) (section_lbl seg),
              heading = py_or (heading b) (heading seg),
              text_lines = text_lines b @ text_lines seg\<rparr>\<rparr>)
   \<and> (buffer_seg st = Some b \<and> min_words \<le> word_count b \<longrightarrow>
      merge_step min_words seg st = \<lparr>merged = merged st @ [b], buffer_seg = Some seg\<rparr>)
   \<and> (word_count s1 = 10 \<and> word_count s2 = 10 \<and> word_count s3 = 200 \<longrightarrow>
      (\<exists>m. merge_small [s1, s2, s3] 150 = [m] \<and> word_count m = 220
           \<and> text_lines m = text_lines s1 @ text_lines s2 @ text_lines s3
           \<and> start_line m = start_line s1 \<and> end_line m = end_line s3))"
proof (intro conjI impI)
  assume "buffer_seg st = Some b \<and> word_count b < min_words"
  then show "merge_step min_words seg st =
        st\<lparr>buffer_seg := Some
             \<lparr>start_line = start_line b, end_line = end_line seg,
              chapter_lbl = py_or (chapter_lbl b) (chapter_lbl seg),
              section_lbl = py_or (section_lbl b) (section_lbl seg),
              heading = py_or (heading b) (heading seg),
              text_lines = text_lines b @ text_lines seg\<rparr>\<rparr>"
    by (simp add: merge_step_Some combined_seg_def)
next
  assume "buffer_seg st = Some b \<and> min_words \<le> word_count b"
  then show "merge_step min_words seg st = \<lparr>merged = merged st @ [b], buffer_seg = Some seg\<rparr>"
    by (simp add: merge_step_Some)
next
  assume wc: "word_count s1 = 10 \<and> word_count s2 = 10 \<and> word_count s3 = 200"
  let ?m = "combined_seg (combined_seg s1 s2) s3"
  have "merge_small [s1, s2, s3] 150 = [?m]"
    using wc
    by (simp add: merge_small_def merge_step_None merge_step_Some word_count_combined_seg
        flush_buffer_def)
  moreover have "word_count ?m = 220"
    using wc by (simp add: word_count_combined_seg)
  moreover have "text_lines ?m = text_lines s1 @ text_lines s2 @ text_lines s3"
    "start_line ?m = start_line s1" "end_line ?m = end_line s3"
    by (simp_all add: combined_seg_def)
  ultimately show "\<exists>m. merge_small [s1, s2, s3] 150 = [m] \<and> word_count m = 220
           \<and> text_lines m = text_lines s1 @ text_lines s2 @ text_lines s3
           \<and> start_line m = start_line s1 \<and> end_line m = end_line s3"
    by blast
qed

text \<open>
  Segments of 10, 10 and 200 one-word lines, on lines 1 to 10, 11 to 20 and 21 to 220.
  With the first in the buffer the second is absorbed; with the third in the buffer the
  first is not; the three merge into one segment of 220 words.
\<close>

theorem merge_decision_on_buffer_alone_witness:
  "word_count \<lparr>start_line = 1, end_line = 10, chapter_lbl = None, section_lbl = None,
                heading = None, text_lines = replicate 10 ''w''\<rparr> = 10
   \<and> word_count \<lparr>start_line = 11, end_line = 20, chapter_lbl = None, section_lbl = None,
                heading = None, text_lines = replicate 10 ''w''\<rparr> = 10
   \<and> word_count \<lparr>start_line = 21, end_line = 220, chapter_lbl = None, section_lbl = None,
                heading = None, text_lines = replicate 200 ''w''\<rparr> = 200
   \<and> buffer_seg (merge_step 150
         \<lparr>start_line = 11, end_line = 20, chapter_lbl = None, section_lbl = None,
          heading = None, text_lines = replicate 10 ''w''\<rparr>
         \<lparr>merged = [], buffer_seg = Some
            \<lparr>start_line = 1, end_line = 10, chapter_lbl = None, section_lbl = None,
             heading = None, text_lines = replicate 10 ''w''\<rparr>\<rparr>)
       = Some \<lparr>start_line = 1, end_line = 20, chapter_lbl = None, section_lbl = None,
               heading = None, text_lines = replicate 10 ''w'' @ replicate 10 ''w''\<rparr>
   \<and> merge_step 150
         \<lparr>start_line = 1, end_line = 10, chapter_lbl = None, section_lbl = None,
          heading = None, text_lines = replicate 10 ''w''\<rparr>
         \<lparr>merged = [], buffer_seg = Some
            \<lparr>start_line = 21, end_line = 220, chapter_lbl = None, section_lbl = None,
             heading = None, text_lines = replicate 200 ''w''\<rparr>\<rparr>
       = \<lparr>merged = [\<lparr>start_line = 21, end_line = 220, chapter_lbl = None, section_lbl = None,
                      heading = None, text_lines = replicate 200 ''w''\<rparr>],
          buffer_seg = Some
            \<lparr>start_line = 1, end_line = 10, chapter_lbl = None, section_lbl = None,
             heading = None, text_lines = replicate 10 ''w''\<rparr>\<rparr>
   \<and> (\<exists>m. merge_small
           [\<lparr>start_line = 1, end_line = 10, chapter_lbl = None, section_lbl = None,
             heading = None, text_lines = replicate 10 ''w''\<rparr>,
            \<lparr>start_line = 11, end_line = 20, chapter_lbl = None, section_lbl = None,
             heading = None, text_lines = replicate 10 ''w''\<rparr>,
            \<lparr>start_line = 21, end_line = 220, chapter_lbl = None, section_lbl = None,
             heading = None, text_lines = replicate 200 ''w''\<rparr>] 150 = [m]
          \<and> word_count m = 220 \<and> start_line m = 1 \<and> end_line m = 220)"
proof -
  let ?a = "\<lparr>start_line = 1, end_line = 10, chapter_lbl = None, section_lbl = None,
             heading = None, text_lines = replicate 10 ''w''\<rparr>"
  let ?b = "\<lparr>start_line = 11, end_line = 20, chapter_lbl = None, section_lbl = None,
             heading = None, text_lines = replicate 10 ''w''\<rparr>"
  let ?c = "\<lparr>start_line = 21, end_line = 220, chapter_lbl = None, section_lbl = None,
             heading = None, text_lines = replicate 200 ''w''\<rparr>"
  have a: "word_count ?a = 10" by code_simp
  have b: "word_count ?b = 10" by code_simp
  have c: "word_count ?c = 200" by code_simp
  have none: "py_or None None = None" by (simp add: py_or_def truthy_def)
  from merge_decision_on_buffer_alone
         [of "\<lparr>merged = [], buffer_seg = Some ?a\<rparr>" ?a 150 ?b ?a ?b ?c] a
  have 1: "buffer_seg (merge_step 150 ?b \<lparr>merged = [], buffer_seg = Some ?a\<rparr>)
       = Some \<lparr>start_line = 1, end_line = 20, chapter_lbl = None, section_lbl = None,
               heading = None, text_lines = replicate 10 ''w'' @ replicate 10 ''w''\<rparr>"
    by (simp add: none)
  from merge_decision_on_buffer_alone
         [of "\<lparr>merged = [], buffer_seg = Some ?c\<rparr>" ?c 150 ?a ?a ?b ?c] a b c
  have 2: "merge_step 150 ?a \<lparr>merged = [], buffer_seg = Some ?c\<rparr>
       = \<lparr>merged = [?c], buffer_seg = Some ?a\<rparr>"
    and 3: "\<exists>m. merge_small [?a, ?b, ?c] 150 = [m]
          \<and> word_count m = 220 \<and> start_line m = 1 \<and> end_line m = 220"
    by auto
  from a b c 1 2 3 show ?thesis by (intro conjI)
qed

subsection \<open>Labels of a merged segment\<close>

lemma first_present_snoc:
  "xs \<noteq> [] \<Longrightarrow> first_present (xs @ [y]) = py_or (first_present xs) y"
  by (induction xs rule: first_present.induct) (auto simp: py_or_def)

lemma first_present_hd: "truthy x \<Longrightarrow> first_present (x # xs) = x"
  by (cases xs) auto

lemma merged_from_single: "merged_from [s] s"
  by (simp add: merged_from_def)

lemma merged_from_combined_seg:
  "merged_from run b \<Longrightarrow> merged_from (run @ [seg]) (combined_seg b seg)"
  by (simp add: merged_from_def combined_seg_def first_present_snoc)

text \<open>
  The loop invariant: the emitted segments are the merges of the runs \<open>done\<close>, and the
  buffer is the merge of the run \<open>cur\<close>.
\<close>

lemma merge_loop_runs:
  "list_all2 merged_from done (merged st) \<Longrightarrow>
   (case buffer_seg st of None \<Rightarrow> cur = [] | Some b \<Rightarrow> merged_from cur b) \<Longrightarrow>
   \<exists>runs. concat runs = concat done @ cur @ segs
         \<and> list_all2 merged_from runs (merged (flush_buffer (merge_loop mn segs st)))"
proof (induction segs arbitrary: st "done" cur)
  case Nil
  show ?case
  proof (cases "buffer_seg st")
    case None
    with Nil show ?thesis by (auto simp: flush_buffer_def intro: exI [of _ "done"])
  next
    case (Some b)
    with Nil have "list_all2 merged_from (done @ [cur]) (merged st @ [b])"
      by (simp add: list_all2_appendI)
    with Some show ?thesis
      by (auto simp: flush_buffer_def intro!: exI [of _ "done @ [cur]"])
  qed
next
  case (Cons seg segs)
  let ?st = "merge_step mn seg st"
  show ?case
  proof (cases "buffer_seg st")
    case None
    then have st': "?st = st\<lparr>buffer_seg := Some seg\<rparr>" by (rule merge_step_None)
    have "\<exists>runs. concat runs = concat done @ [seg] @ segs
         \<and> list_all2 merged_from runs (merged (flush_buffer (merge_loop mn segs ?st)))"
      by (rule Cons.IH) (use Cons.prems st' in \<open>simp_all add: merged_from_single\<close>)
    with None Cons.prems show ?thesis by simp
  next
    case (Some b)
    show ?thesis
    proof (cases "word_count b < mn")
      case True
      with Some have st': "?st = st\<lparr>buffer_seg := Some (combined_seg b seg)\<rparr>"
        by (simp add: merge_step_Some)
      have "\<exists>runs. concat runs = concat done @ (cur @ [seg]) @ segs
         \<and> list_all2 merged_from runs (merged (flush_buffer (merge_loop mn segs ?st)))"
        by (rule Cons.IH)
          (use Cons.prems Some st' in \<open>simp_all add: merged_from_combined_seg\<close>)
      then show ?thesis by simp
    next
      case False
      with Some have st': "?st = \<lparr>merged = merged st @ [b], buffer_seg = Some seg\<rparr>"
        by (simp add: merge_step_Some)
      have "\<exists>runs. concat runs = concat (done @ [cur]) @ [seg] @ segs
         \<and> list_all2 merged_from runs (merged (flush_buffer (merge_loop mn segs ?st)))"
        by (rule Cons.IH)
          (use Cons.prems Some st' in \<open>simp_all add: merged_from_single list_all2_appendI\<close>)
      then show ?thesis by simp
    qed
  qed
qed

lemma merge_small_runs:
  "\<exists>runs. concat runs = segs \<and> list_all2 merged_from runs (merge_small segs mn)"
  using merge_loop_runs [of "[]" "\<lparr>merged = [], buffer_seg = None\<rparr>" "[]" segs mn]
  by (simp add: merge_small_def)

text \<open>
  Claim C5, as stated, fails: a segment of front matter with no labels, followed by the
  first chapter's segment, merges under \<open>min_words = 150\<close> into one segment whose chapter
  and heading are those of the second contributing segment, not of the first.
\<close>

theorem merged_labels_not_first_segment:
  "merge_small
     [\<lparr>start_line = 1, end_line = 1, chapter_lbl = None, section_lbl = None,
       heading = None, text_lines = [''Preface'']\<rparr>,
      \<lparr>start_line = 2, end_line = 3, chapter_lbl = Some ''1'', section_lbl = None,
       heading = Some ''Chapter 1'', text_lines = [''CHAPTER 1.'', ''Intro'']\<rparr>] 150
   = [\<lparr>start_line = 1, end_line = 3, chapter_lbl = Some ''1'', section_lbl = None,
       heading = Some ''Chapter 1'', text_lines = [''Preface'', ''CHAPTER 1.'', ''Intro'']\<rparr>]
   \<and> chapter_lbl \<lparr>start_line = 1, end_line = 3, chapter_lbl = Some ''1'', section_lbl = None,
       heading = Some ''Chapter 1'', text_lines = [''Preface'', ''CHAPTER 1.'', ''Intro'']\<rparr>
     \<noteq> chapter_lbl \<lparr>start_line = 1, end_line = 1, chapter_lbl = None, section_lbl = None,
       heading = None, text_lines = [''Preface'']\<rparr>
   \<and> heading \<lparr>start_line = 1, end_line = 3, chapter_lbl = Some ''1'', section_lbl = None,
       heading = Some ''Chapter 1'', text_lines = [''Preface'', ''CHAPTER 1.'', ''Intro'']\<rparr>
     \<noteq> heading \<lparr>start_line = 1, end_line = 1, chapter_lbl = None, section_lbl = None,
       heading = None, text_lines = [''Preface'']\<rparr>"
  by code_simp

text \<open>
  Claim C5, amended. The merge-small pass cuts its input into runs of consecutive
  segments and emits one segment per run, in order. Each of the chapter, section and
  heading of an emitted segment is the first label of its run that is present, that is,
  neither \<open>None\<close> nor the empty string: it is the label of the first contributing segment
  whenever that label is present, whatever the later segments of the run carry, and
  otherwise the label of the earliest later segment that has one.
\<close>

theorem merged_labels_first_present:
  "\<exists>runs. concat runs = segs
     \<and> list_all2 (\<lambda>run c.
          merged_from run c
          \<and> (truthy (chapter_lbl (hd run)) \<longrightarrow> chapter_lbl c = chapter_lbl (hd run))
          \<and> (truthy (section_lbl (hd run)) \<longrightarrow> section_lbl c = section_lbl (hd run))
          \<and> (truthy (heading (hd run)) \<longrightarrow> heading c = heading (hd run)))
        runs (merge_small segs min_words)"
proof -
  obtain runs where r: "concat runs = segs"
    "list_all2 merged_from runs (merge_small segs min_words)"
    using merge_small_runs by blast
  have "merged_from run c \<Longrightarrow>
          merged_from run c
          \<and> (truthy (chapter_lbl (hd run)) \<longrightarrow> chapter_lbl c = chapter_lbl (hd run))
          \<and> (truthy (section_lbl (hd run)) \<longrightarrow> section_lbl c = section_lbl (hd run))
          \<and> (truthy (heading (hd run)) \<longrightarrow> heading c = heading (hd run))" for run c
    by (cases run) (auto simp: merged_from_def first_present_hd)
  with r(2) have "list_all2 (\<lambda>run c.
          merged_from run c
          \<and> (truthy (chapter_lbl (hd run)) \<longrightarrow> chapter_lbl c = chapter_lbl (hd run))
          \<and> (truthy (section_lbl (hd run)) \<longrightarrow> section_lbl c = section_lbl (hd run))
          \<and> (truthy (heading (hd run)) \<longrightarrow> heading c = heading (hd run)))
        runs (merge_small segs min_words)"
    by (rule list_all2_mono)
  with r(1) show ?thesis by blast
qed

text \<open>
  Two short segments whose labels are all present and differ merge into one segment
  that carries the labels of the first.
\<close>

theorem merged_labels_first_present_witness:
  "merge_small
     [\<lparr>start_line = 1, end_line = 2, chapter_lbl = Some ''1'', section_lbl = Some ''1.1'',
       heading = Some ''Basics'', text_lines = [''1.1 Basics'', ''More content.'']\<rparr>,
      \<lparr>start_line = 3, end_line = 3, chapter_lbl = Some ''2'', section_lbl = Some ''2.1'',
       heading = Some ''Cells'', text_lines = [''2.1 Cells'']\<rparr>] 150
   = [\<lparr>start_line = 1, end_line = 3, chapter_lbl = Some ''1'', section_lbl = Some ''1.1'',
       heading = Some ''Basics'',
       text_lines = [''1.1 Basics'', ''More content.'', ''2.1 Cells'']\<rparr>]
   \<and> truthy (Some ''1'') \<and> truthy (Some ''1.1'') \<and> truthy (Some ''Basics'')
   \<and> (\<exists>runs. concat runs =
         [\<lparr>start_line = 1, end_line = 2, chapter_lbl = Some ''1'', section_lbl = Some ''1.1'',
           heading = Some ''Basics'', text_lines = [''1.1 Basics'', ''More content.'']\<rparr>,
          \<lparr>start_line = 3, end_line = 3, chapter_lbl = Some ''2'', section_lbl = Some ''2.1'',
           heading = Some ''Cells'', text_lines = [''2.1 Cells'']\<rparr>]
     \<and> list_all2 (\<lambda>run c.
          merged_from run c
          \<and> (truthy (chapter_lbl (hd run)) \<longrightarrow> chapter_lbl c = chapter_lbl (hd run))
          \<and> (truthy (section_lbl (hd run)) \<longrightarrow> section_lbl c = section_lbl (hd run))
          \<and> (truthy (heading (hd run)) \<longrightarrow> heading c = heading (hd run)))
        runs
        (merge_small
          [\<lparr>start_line = 1, end_line = 2, chapter_lbl = Some ''1'', section_lbl = Some ''1.1'',
            heading = Some ''Basics'', text_lines = [''1.1 Basics'', ''More content.'']\<rparr>,
           \<lparr>start_line = 3, end_line = 3, chapter_lbl = Some ''2'', section_lbl = Some ''2.1'',
            heading = Some ''Cells'', text_lines = [''2.1 Cells'']\<rparr>] 150))"
proof (intro conjI)
  show "merge_small
     [\<lparr>start_line = 1, end_line = 2, chapter_lbl = Some ''1'', section_lbl = Some ''1.1'',
       heading = Some ''Basics'', text_lines = [''1.1 Basics'', ''More content.'']\<rparr>,
      \<lparr>start_line = 3, end_line = 3, chapter_lbl = Some ''2'', section_lbl = Some ''2.1'',
       heading = Some ''Cells'', text_lines = [''2.1 Cells'']\<rparr>] 150
   = [\<lparr>start_line = 1, end_line = 3, chapter_lbl = Some ''1'', section_lbl = Some ''1.1'',
       heading = Some ''Basics'',
       text_lines = [''1.1 Basics'', ''More content.'', ''2.1 Cells'']\<rparr>]"
    by code_simp
  show "truthy (Some ''1'')" "truthy (Some ''1.1'')" "truthy (Some ''Basics'')"
    by (simp_all add: truthy_def)
  show "\<exists>runs. concat runs =
         [\<lparr>start_line = 1, end_line = 2, chapter_lbl = Some ''1'', section_lbl = Some ''1.1'',
           heading = Some ''Basics'', text_lines = [''1.1 Basics'', ''More content.'']\<rparr>,
          \<lparr>start_line = 3, end_line = 3, chapter_lbl = Some ''2'', section_lbl = Some ''2.1'',
           heading = Some ''Cells'', text_lines = [''2.1 Cells'']\<rparr>]
     \<and> list_all2 (\<lambda>run c.
          merged_from run c
          \<and> (truthy (chapter_lbl (hd run)) \<longrightarrow> chapter_lbl c = chapter_lbl (hd run))
          \<and> (truthy (section_lbl (hd run)) \<longrightarrow> section_lbl c = section_lbl (hd run))
          \<and> (truthy (heading (hd run)) \<longrightarrow> heading c = heading (hd run)))
        runs
        (merge_small
          [\<lparr>start_line = 1, end_line = 2, chapter_lbl = Some ''1'', section_lbl = Some ''1.1'',
            heading = Some ''Basics'', text_lines = [''1.1 Basics'', ''More content.'']\<rparr>,
           \<lparr>start_line = 3, end_line = 3, chapter_lbl = Some ''2'', section_lbl = Some ''2.1'',
            heading = Some ''Cells'', text_lines = [''2.1 Cells'']\<rparr>] 150)"
    by (rule merged_labels_first_present)
qed

section \<open>Heading Classifier: the glossary marker\<close>

lemma tolower_ascii_lower:
  assumes "tolower c = l" and "97 \<le> (of_char l :: nat)" and "(of_char l :: nat) \<le> 122"
  shows "c = l \<or> (of_char c :: nat) + 32 = of_char l"
proof (cases "(65 \<le> (of_char c :: nat) \<and> (of_char c :: nat) \<le> 90)
              \<or> (192 \<le> (of_char c :: nat) \<and> (of_char c :: nat) \<le> 222 \<and> (of_char c :: nat) \<noteq> 215)")
  case False
  with assms(1) show ?thesis by (simp add: tolower_def Let_def)
next
  case True
  with assms(1) have "l = char_of ((of_char c :: nat) + 32)"
    by (simp add: tolower_def Let_def)
  then have "(of_char l :: nat) = ((of_char c :: nat) + 32) mod 256" by simp
  with True have "(of_char l :: nat) = (of_char c :: nat) + 32" by auto
  then show ?thesis by simp
qed

lemma tolower_g: "tolower c = CHR ''g'' \<Longrightarrow> c = CHR ''g'' \<or> c = CHR ''G''"
proof -
  assume "tolower c = CHR ''g''"
  then have "c = CHR ''g'' \<or> (of_char c :: nat) + 32 = of_char (CHR ''g'')"
    by (rule tolower_ascii_lower) simp_all
  moreover have "(of_char c :: nat) + 32 = of_char (CHR ''g'') \<Longrightarrow> c = CHR ''G''"
  proof -
    assume "(of_char c :: nat) + 32 = of_char (CHR ''g'')"
    then have "(of_char c :: nat) = of_char (CHR ''G'')" by simp
    then show "c = CHR ''G''" by (simp only: of_char_eq_iff)
  qed
  ultimately show ?thesis by blast
qed

lemma tolower_y: "tolower c = CHR ''y'' \<Longrightarrow> c = CHR ''y'' \<or> c = CHR ''Y''"
proof -
  assume "tolower c = CHR ''y''"
  then have "c = CHR ''y'' \<or> (of_char c :: nat) + 32 = of_char (CHR ''y'')"
    by (rule tolower_ascii_lower) simp_all
  moreover have "(of_char c :: nat) + 32 = of_char (CHR ''y'') \<Longrightarrow> c = CHR ''Y''"
  proof -
    assume "(of_char c :: nat) + 32 = of_char (CHR ''y'')"
    then have "(of_char c :: nat) = of_char (CHR ''Y'')" by simp
    then show "c = CHR ''Y''" by (simp only: of_char_eq_iff)
  qed
  ultimately show ?thesis by blast
qed

lemma glossary_first_char: "tolower c = CHR ''g'' \<Longrightarrow> isword c \<and> \<not> isspace c"
  by (auto dest!: tolower_g simp: isword_def isspace_def)

lemma glossary_last_char: "tolower c = CHR ''y'' \<Longrightarrow> isword c \<and> \<not> isspace c"
  by (auto dest!: tolower_y simp: isword_def isspace_def)

lemma tolower_pattern: "map tolower ''GLOSSARY'' = ''glossary''"
  by code_simp

lemma match_literal_ci_append:
  "map tolower w = map tolower p \<Longrightarrow> match_literal_ci p (w @ q) = Some q"
proof (induction p arbitrary: w)
  case Nil
  then show ?case by simp
next
  case (Cons a p)
  then obtain c w' where "w = c # w'" by (cases w) auto
  with Cons show ?case by simp
qed

lemma glossary_word_ends:
  assumes "map tolower w = ''glossary''"
  shows "length w = 8" and "w \<noteq> []" and "tolower (hd w) = CHR ''g''"
    and "tolower (last w) = CHR ''y''"
proof -
  have "length (map tolower w) = length ''glossary''" using assms by simp
  then show len: "length w = 8" by simp
  then show ne: "w \<noteq> []" by auto
  from ne have "tolower (hd w) = hd (map tolower w)" by (simp add: hd_map)
  with assms show "tolower (hd w) = CHR ''g''" by simp
  from ne have "tolower (last w) = last (map tolower w)" by (simp add: last_map)
  with assms show "tolower (last w) = CHR ''y''" by simp
qed

lemma glossary_at_word:
  assumes w: "map tolower w = ''glossary''"
    and before: "case prev of None \<Rightarrow> True | Some c \<Rightarrow> \<not> isword c"
    and after: "q = [] \<or> \<not> isword (hd q)"
  shows "glossary_at prev (w @ q)"
proof -
  note e = glossary_word_ends [OF w]
  have m: "match_literal_ci ''GLOSSARY'' (w @ q) = Some q"
    by (rule match_literal_ci_append) (simp only: w tolower_pattern)
  have h: "opt_hd (w @ q) = Some (hd w)"
    using e(2) by (cases w) (simp_all add: opt_hd_def)
  have l: "last (take 8 (w @ q)) = last w" using e(1) by simp
  have b1: "word_boundary prev (Some (hd w))"
    using before glossary_first_char [OF e(3)]
    by (simp add: word_boundary_def split: option.splits)
  have b2: "word_boundary (Some (last w)) (opt_hd q)"
    using after glossary_last_char [OF e(4)]
    by (cases q) (simp_all add: word_boundary_def opt_hd_def)
  show ?thesis
    by (simp add: glossary_at_def m h e(1) b1 b2)
qed

lemma glossary_search_from_append:
  "w \<noteq> [] \<Longrightarrow> glossary_at (if p = [] then prev else Some (last p)) (w @ q) \<Longrightarrow>
   glossary_search_from prev (p @ w @ q)"
proof (induction p arbitrary: prev)
  case Nil
  then obtain c w' where "w = c # w'" by (cases w) auto
  with Nil show ?case by simp
next
  case (Cons a p)
  have "glossary_search_from (Some a) (p @ w @ q)"
    by (rule Cons.IH) (use Cons.prems in \<open>auto split: if_splits\<close>)
  then show ?case by simp
qed

lemma dropWhile_append_keep:
  "ys \<noteq> [] \<Longrightarrow> \<not> P (hd ys) \<Longrightarrow> dropWhile P (xs @ ys) = dropWhile P xs @ ys"
proof (induction xs)
  case Nil
  then show ?case by (cases ys) simp_all
next
  case (Cons x xs)
  then show ?case by simp
qed

lemma str_strip_around:
  assumes "w \<noteq> []" and "\<not> isspace (hd w)" and "\<not> isspace (last w)"
  shows "str_strip (pre @ w @ post)
         = dropWhile isspace pre @ w @ rev (dropWhile isspace (rev post))"
proof -
  have 1: "dropWhile isspace (pre @ w @ post) = dropWhile isspace pre @ w @ post"
    by (rule dropWhile_append_keep) (use assms(1,2) in simp_all)
  have "rev (dropWhile isspace pre @ w @ post)
        = rev post @ (rev w @ rev (dropWhile isspace pre))"
    by simp
  moreover have "dropWhile isspace (rev post @ (rev w @ rev (dropWhile isspace pre)))
           = dropWhile isspace (rev post) @ (rev w @ rev (dropWhile isspace pre))"
    by (rule dropWhile_append_keep) (use assms(1,3) in \<open>simp_all add: hd_rev\<close>)
  ultimately show ?thesis
    by (simp add: str_strip_def 1)
qed

lemma last_dropWhile: "dropWhile P xs \<noteq> [] \<Longrightarrow> last (dropWhile P xs) = last xs"
  by (metis last_appendR takeWhile_dropWhile_id)

lemma hd_rev_dropWhile_rev:
  "rev (dropWhile P (rev xs)) \<noteq> [] \<Longrightarrow> hd (rev (dropWhile P (rev xs))) = hd xs"
proof -
  assume ne: "rev (dropWhile P (rev xs)) \<noteq> []"
  have "xs = rev (dropWhile P (rev xs)) @ rev (takeWhile P (rev xs))"
    by (metis rev_append rev_rev_ident takeWhile_dropWhile_id)
  with ne show ?thesis by (metis hd_append2)
qed

text \<open>
  Claim C6. A line that contains the word \<open>glossary\<close>, in any mixture of upper and lower
  case, with no word character directly before or after it, classifies as
  \<open>("Glossary", None, "Glossary")\<close> for every tracked chapter, whatever else the line
  holds: the glossary test comes first, before the chapter and section patterns are tried.
\<close>

theorem glossary_overrides:
  assumes "line = pre @ w @ post"
    and "map tolower w = ''glossary''"
    and "pre = [] \<or> \<not> isword (last pre)"
    and "post = [] \<or> \<not> isword (hd post)"
  shows "classify_heading line cur = (Some ''Glossary'', None, Some ''Glossary'')"
proof -
  note e = glossary_word_ends [OF assms(2)]
  let ?pre = "dropWhile isspace pre"
  let ?post = "rev (dropWhile isspace (rev post))"
  have s: "str_strip line = ?pre @ w @ ?post"
    unfolding assms(1)
    by (rule str_strip_around)
      (use e glossary_first_char glossary_last_char in \<open>simp_all\<close>)
  have before: "case (if ?pre = [] then None else Some (last ?pre)) of
                  None \<Rightarrow> True | Some c \<Rightarrow> \<not> isword c"
    using assms(3) by (auto simp: last_dropWhile)
  have after: "?post = [] \<or> \<not> isword (hd ?post)"
  proof (cases "?post = []")
    case True
    then show ?thesis by simp
  next
    case False
    then have "hd ?post = hd post" by (rule hd_rev_dropWhile_rev)
    moreover from False have "post \<noteq> []" by auto
    ultimately show ?thesis using assms(4) by simp
  qed
  have "glossary_at (if ?pre = [] then None else Some (last ?pre)) (w @ ?post)"
    using assms(2) before after by (rule glossary_at_word)
  then have "glossary_search_from None (?pre @ w @ ?post)"
    using e(2) by (intro glossary_search_from_append)
  then show ?thesis
    by (simp add: classify_heading_def glossary_re_search_def s)
qed

text \<open>
  The line \<open>CHAPTER 1. Glossary\<close> matches the chapter pattern with chapter \<open>1\<close>, and yet
  classifies as the glossary heading.
\<close>

theorem glossary_overrides_witness:
  "chapter_re_match (str_strip (''CHAPTER 1. Glossary'' @ [NL])) = Some ''1''
   \<and> classify_heading (''CHAPTER 1. Glossary'' @ [NL]) (Some ''7'')
       = (Some ''Glossary'', None, Some ''Glossary'')"
proof (rule conjI)
  show "chapter_re_match (str_strip (''CHAPTER 1. Glossary'' @ [NL])) = Some ''1''"
    by code_simp
next
  show "classify_heading (''CHAPTER 1. Glossary'' @ [NL]) (Some ''7'')
       = (Some ''Glossary'', None, Some ''Glossary'')"
  proof (rule glossary_overrides [of _ "''CHAPTER 1. ''" "''Glossary''" "[NL]"])
    show "''CHAPTER 1. Glossary'' @ [NL] = ''CHAPTER 1. '' @ ''Glossary'' @ [NL]" by simp
    show "map tolower ''Glossary'' = ''glossary''" by code_simp
    show "''CHAPTER 1. '' = [] \<or> \<not> isword (last ''CHAPTER 1. '')"
      by (simp add: isword_def)
    show "[NL] = [] \<or> \<not> isword (hd [NL])" by (simp add: isword_def NL_def)
  qed
qed

section \<open>Segmenter: coverage of the input lines\<close>

lemma contiguous_cover_snoc:
  "contiguous_cover a xs (start_line s - 1) \<Longrightarrow> start_line s \<le> end_line s \<Longrightarrow>
   contiguous_cover a (xs @ [s]) (end_line s)"
  by (induction xs arbitrary: a) auto

lemma contiguous_cover_bounds:
  "contiguous_cover a segs n \<Longrightarrow> a \<le> n + 1"
proof (induction segs arbitrary: a)
  case Nil
  then show ?case by simp
next
  case (Cons s segs)
  from Cons.IH [of "end_line s + 1"] Cons.prems
  have "end_line s + 1 \<le> n + 1" by simp
  with Cons.prems show ?case by simp
qed

lemma contiguous_cover_union:
  "contiguous_cover a segs n \<Longrightarrow> (\<Union>s\<in>set segs. {start_line s..end_line s}) = {a..n}"
proof (induction segs arbitrary: a)
  case Nil
  then show ?case by simp
next
  case (Cons s segs)
  then have u: "(\<Union>s\<in>set segs. {start_line s..end_line s}) = {end_line s + 1..n}"
    and b: "end_line s + 1 \<le> n + 1" and st: "start_line s = a" "a \<le> end_line s"
    by (auto dest: contiguous_cover_bounds)
  have "{a..end_line s} \<union> {end_line s + 1..n} = {a..n}"
    using b st by auto
  with u st show ?case by simp
qed

lemma contiguous_cover_starts:
  "contiguous_cover b segs n \<Longrightarrow> t \<in> set segs \<Longrightarrow> b \<le> start_line t"
proof (induction segs arbitrary: b)
  case Nil
  then show ?case by simp
next
  case (Cons s segs)
  show ?case
  proof (cases "t = s")
    case True
    with Cons.prems show ?thesis by simp
  next
    case False
    with Cons.prems have "end_line s + 1 \<le> start_line t"
      by (intro Cons.IH) auto
    with Cons.prems show ?thesis by simp
  qed
qed

lemma contiguous_cover_sorted:
  "contiguous_cover a segs n \<Longrightarrow> sorted_wrt (\<lambda>s t. end_line s < start_line t) segs"
proof (induction segs arbitrary: a)
  case Nil
  then show ?case by simp
next
  case (Cons s segs)
  then have c: "contiguous_cover (end_line s + 1) segs n" by simp
  have "\<forall>t\<in>set segs. end_line s < start_line t"
    using contiguous_cover_starts [OF c] by force
  with Cons.IH [OF c] show ?case by simp
qed

lemma seg_step_fields:
  "segments (seg_step i line st) =
     (if is_heading_line line (current_chapter st) \<and> current_lines st \<noteq> []
      then segments st @
             [\<lparr>start_line = current_start_line st, end_line = i - 1,
               chapter_lbl = current_chapter st, section_lbl = current_section st,
               heading = current_heading st, text_lines = current_lines st\<rparr>]
      else segments st)"
  "current_lines (seg_step i line st) =
     (if is_heading_line line (current_chapter st) then [str_rstrip_nl line]
      else current_lines st @ [str_rstrip_nl line])"
  "current_start_line (seg_step i line st) =
     (if is_heading_line line (current_chapter st) then i else current_start_line st)"
  "idx (seg_step i line st) = Some i"
  by (cases "classify_heading line (current_chapter st)";
      simp add: seg_step_def heading_update_def Let_def is_heading_line_def)+

lemma split_ws_Nil: "split_ws w s = [] \<Longrightarrow> w = [] \<and> (\<forall>c\<in>set s. isspace c)"
  by (induction s arbitrary: w) (auto split: if_splits)

lemma str_split_Nil: "str_split s = [] \<Longrightarrow> \<forall>c\<in>set s. isspace c"
  by (auto simp: str_split_def dest: split_ws_Nil)

lemma str_strip_all_space: "\<forall>c\<in>set s. isspace c \<Longrightarrow> str_strip s = []"
  by (auto simp: str_strip_def dest: set_dropWhileD)

lemma all_space_rstrip_nl:
  assumes "\<forall>c\<in>set (str_rstrip_nl s). isspace c"
  shows "\<forall>c\<in>set s. isspace c"
proof -
  have "s = str_rstrip_nl s @ rev (takeWhile (\<lambda>c. c = NL) (rev s))"
    unfolding str_rstrip_nl_def
    by (metis rev_append rev_rev_ident takeWhile_dropWhile_id)
  moreover have "\<forall>c\<in>set (rev (takeWhile (\<lambda>c. c = NL) (rev s))). isspace c"
    by (auto dest!: set_takeWhileD simp: isspace_def NL_def)
  ultimately show ?thesis using assms by (metis Un_iff set_append)
qed

lemma classify_heading_blank:
  "str_strip line = [] \<Longrightarrow> classify_heading line ch = (None, None, None)"
  by (simp add: classify_heading_def glossary_re_search_def chapter_re_match_def
      section_re_match_def)

lemma heading_line_has_words:
  assumes "is_heading_line line ch"
  shows "str_split (str_rstrip_nl line) \<noteq> []"
proof
  assume "str_split (str_rstrip_nl line) = []"
  then have "\<forall>c\<in>set (str_rstrip_nl line). isspace c" by (rule str_split_Nil)
  then have "\<forall>c\<in>set line. isspace c" by (rule all_space_rstrip_nl)
  then have "str_strip line = []" by (rule str_strip_all_space)
  then have "classify_heading line ch = (None, None, None)" by (rule classify_heading_blank)
  with assms show False by (simp add: is_heading_line_def)
qed

lemma word_count_first_line:
  "text_lines s \<noteq> [] \<Longrightarrow> str_split (hd (text_lines s)) \<noteq> [] \<Longrightarrow> 0 < word_count s"
proof -
  assume ne: "text_lines s \<noteq> []" and w: "str_split (hd (text_lines s)) \<noteq> []"
  from ne obtain l ls where t: "text_lines s = l # ls" by (cases "text_lines s") auto
  with w have a: "0 < int (length (str_split l))" by simp
  have b: "0 \<le> int (length (concat (map str_split ls)))" by simp
  have "word_count s = int (length (str_split l)) + int (length (concat (map str_split ls)))"
    using t by (simp add: word_count_eq)
  with a b show ?thesis by linarith
qed

lemma list_all_tl_snoc:
  "list_all P (tl xs) \<Longrightarrow> (xs \<noteq> [] \<Longrightarrow> P x) \<Longrightarrow> list_all P (tl (xs @ [x]))"
  by (cases xs) simp_all

lemma seg_step_inv:
  assumes "seg_inv i st"
  shows "seg_inv (i + 1) (seg_step i line st)"
proof -
  let ?h = "is_heading_line line (current_chapter st)"
  let ?new = "\<lparr>start_line = current_start_line st, end_line = i - 1,
               chapter_lbl = current_chapter st, section_lbl = current_section st,
               heading = current_heading st, text_lines = current_lines st\<rparr>"
  from assms have cov: "contiguous_cover 1 (segments st) (current_start_line st - 1)"
    and len: "int (length (current_lines st)) = i - current_start_line st"
    and wcs: "list_all (\<lambda>s. 0 < word_count s) (tl (segments st))"
    and hd: "segments st \<noteq> [] \<Longrightarrow>
            current_lines st \<noteq> [] \<and> str_split (hd (current_lines st)) \<noteq> []"
    by (simp_all add: seg_inv_def)
  show ?thesis
  proof (cases ?h)
    case False
    then show ?thesis
      using cov len wcs hd by (auto simp: seg_inv_def seg_step_fields)
  next
    case True
    note h = True
    show ?thesis
    proof (cases "current_lines st = []")
      case True
      with hd have "segments st = []" by blast
      with True h cov len show ?thesis
        by (simp add: seg_inv_def seg_step_fields)
    next
      case False
      with len have lt: "current_start_line st \<le> i - 1" by (cases "current_lines st") auto
      have c': "contiguous_cover 1 (segments st @ [?new]) (i - 1)"
        using contiguous_cover_snoc [of 1 "segments st" ?new] cov lt by simp
      have w': "list_all (\<lambda>s. 0 < word_count s) (tl (segments st @ [?new]))"
        using wcs
      proof (rule list_all_tl_snoc)
        assume "segments st \<noteq> []"
        with hd show "0 < word_count ?new" by (intro word_count_first_line) simp_all
      qed
      from h False c' w' heading_line_has_words [OF h] show ?thesis
        by (simp add: seg_inv_def seg_step_fields)
    qed
  qed
qed

lemma seg_loop_inv:
  "seg_inv i st \<Longrightarrow> seg_inv (i + int (length lines)) (seg_loop i lines st)"
proof (induction lines arbitrary: i st)
  case Nil
  then show ?case by simp
next
  case (Cons line lines)
  from Cons.prems have "seg_inv (i + 1) (seg_step i line st)" by (rule seg_step_inv)
  then have "seg_inv (i + 1 + int (length lines)) (seg_loop (i + 1) lines (seg_step i line st))"
    by (rule Cons.IH)
  moreover have "i + 1 + int (length lines) = i + int (length (line # lines))" by simp
  ultimately show ?case by (simp only: seg_loop.simps)
qed

lemma seg_inv_init: "seg_inv 1 init_state"
  by (simp add: seg_inv_def init_state_def)

lemma close_final_cover:
  assumes "seg_inv (n + 1) st"
  shows "\<exists>raw. close_final st = Inr raw \<and> contiguous_cover 1 raw n
           \<and> list_all (\<lambda>s. 0 < word_count s) (tl raw)"
proof (cases "current_lines st = []")
  case True
  from assms have cov: "contiguous_cover 1 (segments st) (current_start_line st - 1)"
    and len: "int (length (current_lines st)) = n + 1 - current_start_line st"
    and wcs: "list_all (\<lambda>s. 0 < word_count s) (tl (segments st))"
    by (simp_all add: seg_inv_def)
  from len True have "current_start_line st - 1 = n" by simp
  with cov have "contiguous_cover 1 (segments st) n" by simp
  with True wcs show ?thesis by (simp add: close_final_def)
next
  case False
  let ?new = "\<lparr>start_line = current_start_line st, end_line = n,
               chapter_lbl = current_chapter st, section_lbl = current_section st,
               heading = current_heading st, text_lines = current_lines st\<rparr>"
  from assms have cov: "contiguous_cover 1 (segments st) (current_start_line st - 1)"
    and len: "int (length (current_lines st)) = n + 1 - current_start_line st"
    and ix: "1 < n + 1 \<Longrightarrow> idx st = Some n"
    and wcs: "list_all (\<lambda>s. 0 < word_count s) (tl (segments st))"
    and hd: "segments st \<noteq> [] \<Longrightarrow>
            current_lines st \<noteq> [] \<and> str_split (hd (current_lines st)) \<noteq> []"
    by (simp_all add: seg_inv_def)
  from False len have le: "current_start_line st \<le> n" by (cases "current_lines st") auto
  from cov have "1 \<le> current_start_line st" by (auto dest: contiguous_cover_bounds)
  with le ix have i: "idx st = Some n" by simp
  have c': "contiguous_cover 1 (segments st @ [?new]) n"
    using contiguous_cover_snoc [of 1 "segments st" ?new] cov le by simp
  have w': "list_all (\<lambda>s. 0 < word_count s) (tl (segments st @ [?new]))"
    using wcs
  proof (rule list_all_tl_snoc)
    assume "segments st \<noteq> []"
    with hd show "0 < word_count ?new" by (intro word_count_first_line) simp_all
  qed
  from False i c' w' show ?thesis by (simp add: close_final_def)
qed

lemma emitted_segments_cover:
  "\<exists>raw. emitted_segments lines = Inr raw \<and> contiguous_cover 1 raw (int (length lines))
         \<and> list_all (\<lambda>s. 0 < word_count s) (tl raw)"
proof -
  have "seg_inv (1 + int (length lines)) (seg_loop 1 lines init_state)"
    using seg_inv_init by (rule seg_loop_inv)
  then have "seg_inv (int (length lines) + 1) (seg_loop 1 lines init_state)"
    by (simp add: add.commute)
  then show ?thesis unfolding emitted_segments_def by (rule close_final_cover)
qed


lemma word_count_zero: "\<not> 0 < word_count s \<longleftrightarrow> word_count s = 0"
  by (simp add: word_count_eq)

lemma filter_all_but_first:
  "list_all P (tl xs) \<Longrightarrow> filter P xs = (if xs \<noteq> [] \<and> \<not> P (hd xs) then tl xs else xs)"
  by (cases xs) (simp_all add: list_all_iff)

text \<open>
  Claim C1, as stated, fails: on a blank line followed by a chapter heading the
  Segmenter returns one segment, for line 2 alone, and line 1 belongs to no returned
  segment.
\<close>

theorem leading_blank_line_not_covered:
  "build_semantic_segments [[NL], ''CHAPTER 1.'' @ [NL]]
     = Inr [\<lparr>start_line = 2, end_line = 2, chapter_lbl = Some ''1'', section_lbl = None,
            heading = Some ''Chapter 1'', text_lines = [''CHAPTER 1.'']\<rparr>]
   \<and> \<not> contiguous_cover 1
        [\<lparr>start_line = 2, end_line = 2, chapter_lbl = Some ''1'', section_lbl = None,
          heading = Some ''Chapter 1'', text_lines = [''CHAPTER 1.'']\<rparr>] 2"
  by code_simp

text \<open>
  Claim C1, amended. For an input of \<open>N\<close> lines, the segments that
  \<open>build_semantic_segments\<close> collects before its final filter have contiguous,
  non-overlapping inclusive line ranges whose union is exactly \<open>{1..N}\<close>. Every collected
  segment but the first starts with a heading line and so has words; the filter drops
  the first collected segment exactly when its word count is zero and drops nothing
  else. The returned segments therefore have contiguous, non-overlapping ranges that end
  at \<open>N\<close>, and that start at line 1 unless the first collected segment was dropped, in
  which case they start on the line after it.
\<close>

theorem segments_cover_all_lines:
  "\<exists>raw. emitted_segments lines = Inr raw
     \<and> contiguous_cover 1 raw (int (length lines))
     \<and> (\<Union>s\<in>set raw. {start_line s..end_line s}) = {1..int (length lines)}
     \<and> sorted_wrt (\<lambda>s t. end_line s < start_line t) raw
     \<and> list_all (\<lambda>s. 0 < word_count s) (tl raw)
     \<and> build_semantic_segments lines
         = Inr (if raw \<noteq> [] \<and> word_count (hd raw) = 0 then tl raw else raw)
     \<and> contiguous_cover
          (if raw \<noteq> [] \<and> word_count (hd raw) = 0 then end_line (hd raw) + 1 else 1)
          (if raw \<noteq> [] \<and> word_count (hd raw) = 0 then tl raw else raw)
          (int (length lines))"
proof -
  obtain raw where e: "emitted_segments lines = Inr raw"
    and c: "contiguous_cover 1 raw (int (length lines))"
    and w: "list_all (\<lambda>s. 0 < word_count s) (tl raw)"
    using emitted_segments_cover by blast
  have u: "(\<Union>s\<in>set raw. {start_line s..end_line s}) = {1..int (length lines)}"
    using c by (rule contiguous_cover_union)
  have s: "sorted_wrt (\<lambda>s t. end_line s < start_line t) raw"
    using c by (rule contiguous_cover_sorted)
  have f: "filter (\<lambda>seg. 0 < word_count seg) raw
           = (if raw \<noteq> [] \<and> word_count (hd raw) = 0 then tl raw else raw)"
    using filter_all_but_first [OF w] by (simp add: word_count_zero)
  have b: "build_semantic_segments lines
         = Inr (if raw \<noteq> [] \<and> word_count (hd raw) = 0 then tl raw else raw)"
    by (simp add: build_semantic_segments_def e f)
  have c': "contiguous_cover
          (if raw \<noteq> [] \<and> word_count (hd raw) = 0 then end_line (hd raw) + 1 else 1)
          (if raw \<noteq> [] \<and> word_count (hd raw) = 0 then tl raw else raw)
          (int (length lines))"
    using c by (cases raw) simp_all
  from e c u s w b c' show ?thesis by blast
qed

text \<open>
  Two blank lines, a chapter heading and a body line: the collected segments are lines
  1 to 2 and lines 3 to 4, and the first, which has no words, is dropped.
\<close>

theorem segments_cover_all_lines_witness:
  "build_semantic_segments [[NL], [NL], ''CHAPTER 1.'' @ [NL], ''Intro'' @ [NL]]
     = Inr [\<lparr>start_line = 3, end_line = 4, chapter_lbl = Some ''1'', section_lbl = None,
            heading = Some ''Chapter 1'', text_lines = [''CHAPTER 1.'', ''Intro'']\<rparr>]
   \<and> (\<exists>raw. emitted_segments [[NL], [NL], ''CHAPTER 1.'' @ [NL], ''Intro'' @ [NL]] = Inr raw
     \<and> contiguous_cover 1 raw 4
     \<and> (\<Union>s\<in>set raw. {start_line s..end_line s}) = {1..4}
     \<and> sorted_wrt (\<lambda>s t. end_line s < start_line t) raw
     \<and> list_all (\<lambda>s. 0 < word_count s) (tl raw)
     \<and> build_semantic_segments [[NL], [NL], ''CHAPTER 1.'' @ [NL], ''Intro'' @ [NL]]
         = Inr (if raw \<noteq> [] \<and> word_count (hd raw) = 0 then tl raw else raw)
     \<and> contiguous_cover
          (if raw \<noteq> [] \<and> word_count (hd raw) = 0 then end_line (hd raw) + 1 else 1)
          (if raw \<noteq> [] \<and> word_count (hd raw) = 0 then tl raw else raw) 4)"
proof (rule conjI)
  show "build_semantic_segments [[NL], [NL], ''CHAPTER 1.'' @ [NL], ''Intro'' @ [NL]]
     = Inr [\<lparr>start_line = 3, end_line = 4, chapter_lbl = Some ''1'', section_lbl = None,
            heading = Some ''Chapter 1'', text_lines = [''CHAPTER 1.'', ''Intro'']\<rparr>]"
    by code_simp
next
  from segments_cover_all_lines [of "[[NL], [NL], ''CHAPTER 1.'' @ [NL], ''Intro'' @ [NL]]"]
  show "\<exists>raw. emitted_segments [[NL], [NL], ''CHAPTER 1.'' @ [NL], ''Intro'' @ [NL]] = Inr raw
     \<and> contiguous_cover 1 raw 4
     \<and> (\<Union>s\<in>set raw. {start_line s..end_line s}) = {1..4}
     \<and> sorted_wrt (\<lambda>s t. end_line s < start_line t) raw
     \<and> list_all (\<lambda>s. 0 < word_count s) (tl raw)
     \<and> build_semantic_segments [[NL], [NL], ''CHAPTER 1.'' @ [NL], ''Intro'' @ [NL]]
         = Inr (if raw \<noteq> [] \<and> word_count (hd raw) = 0 then tl raw else raw)
     \<and> contiguous_cover
          (if raw \<noteq> [] \<and> word_count (hd raw) = 0 then end_line (hd raw) + 1 else 1)
          (if raw \<noteq> [] \<and> word_count (hd raw) = 0 then tl raw else raw) 4"
    by simp
qed

section \<open>Split-large pass: the size of the pieces\<close>

lemma word_count_new_seg:
  "word_count (new_seg seg sents) = int (length (concat (map str_split sents)))"
  by (simp add: word_count_eq new_seg_def str_split_join)

lemma within_max_new_seg:
  assumes "split_inv seg mx st" and "current_sentences st \<noteq> []"
  shows "within_max seg mx (new_seg seg (current_sentences st))"
proof (cases "current_wc st \<le> mx")
  case True
  with assms show ?thesis
    by (simp add: within_max_def split_inv_def word_count_new_seg)
next
  case False
  with assms obtain s where "s \<in> set (re_split_sentences (seg_text seg))"
    "current_sentences st = [str_strip s]" "mx < int (length (str_split (str_strip s)))"
    by (auto simp: split_inv_def)
  then show ?thesis
    by (auto simp: within_max_def new_seg_def)
qed

lemma split_step_inv:
  assumes "split_inv seg mx st" and "sent \<in> set (re_split_sentences (seg_text seg))"
  shows "split_inv seg mx (split_step seg mx sent st)"
proof (cases "str_strip sent = []")
  case True
  with assms show ?thesis by (simp add: split_step_def)
next
  case False
  let ?wc = "int (length (str_split (str_strip sent)))"
  have single: "?wc \<le> mx \<or> (\<exists>s \<in> set (re_split_sentences (seg_text seg)).
                [str_strip sent] = [str_strip s]
                \<and> mx < int (length (str_split (str_strip s))))"
    using assms(2) by auto
  show ?thesis
  proof (cases "current_sentences st \<noteq> [] \<and> current_wc st + ?wc > mx")
    case True
    with False assms(1) single within_max_new_seg [OF assms(1)] show ?thesis
      by (simp add: split_step_def Let_def split_inv_def)
  next
    case nf: False
    show ?thesis
    proof (cases "current_sentences st = []")
      case True
      with False nf assms(1) single show ?thesis
        by (simp add: split_step_def Let_def split_inv_def)
    next
      case ne: False
      with nf have "current_wc st + ?wc \<le> mx" by simp
      with False nf ne assms(1) show ?thesis
        by (simp add: split_step_def Let_def split_inv_def)
    qed
  qed
qed

lemma split_loop_inv:
  "split_inv seg mx st \<Longrightarrow> set sents \<subseteq> set (re_split_sentences (seg_text seg)) \<Longrightarrow>
   split_inv seg mx (split_loop seg mx sents st)"
proof (induction sents arbitrary: st)
  case Nil
  then show ?case by simp
next
  case (Cons sent sents)
  then have "split_inv seg mx (split_step seg mx sent st)"
    by (intro split_step_inv) auto
  with Cons show ?case by simp
qed

lemma split_large_segment_within_max:
  "list_all (within_max seg mx) (split_large_segment seg mx)"
proof (cases "word_count seg \<le> mx")
  case True
  then show ?thesis by (simp add: split_large_segment_def within_max_def)
next
  case False
  let ?st = "split_loop seg mx (re_split_sentences (seg_text seg))
               \<lparr>chunks = [], current_sentences = [], current_wc = 0\<rparr>"
  have "split_inv seg mx \<lparr>chunks = [], current_sentences = [], current_wc = 0\<rparr>"
    by (simp add: split_inv_def)
  then have i: "split_inv seg mx ?st" by (rule split_loop_inv) simp
  then have "list_all (within_max seg mx) (chunks ?st)" by (simp add: split_inv_def)
  with within_max_new_seg [OF i] False show ?thesis
    by (simp add: split_large_segment_def Let_def)
qed

text \<open>
  Claim C7. A segment of at most \<open>max_words\<close> words is returned unchanged as the only
  result of \<open>split_large_segment\<close>. Otherwise every segment of the result has at most
  \<open>max_words\<close> words, except a segment that consists of a single sentence piece whose own
  word count exceeds \<open>max_words\<close>: such a piece stands alone in its segment, as it is.
\<close>

theorem split_respects_max_words:
  "(word_count seg \<le> max_words \<longrightarrow> split_large_segment seg max_words = [seg])
   \<and> (max_words < word_count seg \<longrightarrow>
        (\<forall>c \<in> set (split_large_segment seg max_words).
           word_count c \<le> max_words
           \<or> (\<exists>s \<in> set (re_split_sentences (seg_text seg)).
                 text_lines c = [str_strip s]
                 \<and> max_words < int (length (str_split (str_strip s))))))"
  using split_large_segment_within_max [of seg max_words]
  by (simp add: split_large_segment_def list_all_iff within_max_def)

text \<open>
  A segment of five words whose first sentence has three: with \<open>max_words = 5\<close> it is
  returned unchanged; with \<open>max_words = 2\<close> the three-word sentence is a segment of its
  own and the two one-word sentences share the next.
\<close>

theorem split_respects_max_words_witness:
  "word_count \<lparr>start_line = 1, end_line = 1, chapter_lbl = None, section_lbl = None,
                heading = None, text_lines = [''a b c. d. e.'']\<rparr> \<le> 5
   \<and> split_large_segment
         \<lparr>start_line = 1, end_line = 1, chapter_lbl = None, section_lbl = None,
          heading = None, text_lines = [''a b c. d. e.'']\<rparr> 5
       = [\<lparr>start_line = 1, end_line = 1, chapter_lbl = None, section_lbl = None,
           heading = None, text_lines = [''a b c. d. e.'']\<rparr>]
   \<and> 2 < word_count \<lparr>start_line = 1, end_line = 1, chapter_lbl = None, section_lbl = None,
                heading = None, text_lines = [''a b c. d. e.'']\<rparr>
   \<and> map text_lines (split_large_segment
         \<lparr>start_line = 1, end_line = 1, chapter_lbl = None, section_lbl = None,
          heading = None, text_lines = [''a b c. d. e.'']\<rparr> 2)
       = [[''a b c.''], [''d. e.'']]
   \<and> list_all
        (\<lambda>c. word_count c \<le> 2
           \<or> (\<exists>s \<in> set (re_split_sentences (seg_text
                   \<lparr>start_line = 1, end_line = 1, chapter_lbl = None, section_lbl = None,
                    heading = None, text_lines = [''a b c. d. e.'']\<rparr>)).
                 text_lines c = [str_strip s] \<and> 2 < int (length (str_split (str_strip s)))))
        (split_large_segment
          \<lparr>start_line = 1, end_line = 1, chapter_lbl = None, section_lbl = None,
           heading = None, text_lines = [''a b c. d. e.'']\<rparr> 2)"
proof -
  let ?s = "\<lparr>start_line = 1, end_line = 1, chapter_lbl = None, section_lbl = None,
             heading = None, text_lines = [''a b c. d. e.'']\<rparr>"
  have a: "word_count ?s \<le> 5" by code_simp
  have b: "2 < word_count ?s" by code_simp
  have c: "map text_lines (split_large_segment ?s 2) = [[''a b c.''], [''d. e.'']]"
    by code_simp
  from a split_respects_max_words [of ?s 5]
  have d: "split_large_segment ?s 5 = [?s]" by blast
  from b split_respects_max_words [of ?s 2]
  have e: "list_all
        (\<lambda>c. word_count c \<le> 2
           \<or> (\<exists>s \<in> set (re_split_sentences (seg_text ?s)).
                 text_lines c = [str_strip s] \<and> 2 < int (length (str_split (str_strip s)))))
        (split_large_segment ?s 2)"
    unfolding list_all_iff by blast
  from a d b c e show ?thesis by (intro conjI)
qed

section \<open>Size Normalizer: no word is lost or duplicated\<close>

lemma seg_words_new_seg: "seg_words (new_seg seg sents) = concat (map str_split sents)"
  by (simp add: seg_words_def str_split_seg_text new_seg_def str_split_join)

lemma split_step_words:
  "split_words (split_step seg mx sent st) = split_words st @ str_split sent"
proof (cases "str_strip sent = []")
  case True
  then show ?thesis by (simp add: split_step_def str_split_blank)
next
  case False
  have "str_split (str_strip sent) = str_split sent" by (rule str_split_strip)
  with False show ?thesis
    by (simp add: split_step_def Let_def split_words_def seg_words_new_seg)
qed

lemma split_loop_words:
  "split_words (split_loop seg mx sents st) = split_words st @ concat (map str_split sents)"
  by (induction sents arbitrary: st) (simp_all add: split_step_words)

lemma split_large_segment_words:
  "concat (map seg_words (split_large_segment seg mx)) = seg_words seg"
proof (cases "word_count seg \<le> mx")
  case True
  then show ?thesis by (simp add: split_large_segment_def)
next
  case False
  let ?st = "split_loop seg mx (re_split_sentences (seg_text seg))
               \<lparr>chunks = [], current_sentences = [], current_wc = 0\<rparr>"
  have "split_words ?st = concat (map str_split (re_split_sentences (seg_text seg)))"
    unfolding split_loop_words by (simp add: split_words_def)
  also have "\<dots> = seg_words seg"
    by (simp add: re_split_sentences_def str_split_sentence_split seg_words_def)
  finally have w: "split_words ?st = seg_words seg" .
  show ?thesis
  proof (cases "current_sentences ?st = []")
    case True
    with False w show ?thesis
      by (simp add: split_large_segment_def Let_def split_words_def)
  next
    case ne: False
    with False w show ?thesis
      by (simp add: split_large_segment_def Let_def split_words_def seg_words_new_seg)
  qed
qed

lemma split_pass_words:
  "concat (map seg_words (split_pass mx segs acc))
   = concat (map seg_words acc) @ concat (map seg_words segs)"
  by (induction segs arbitrary: acc) (simp_all add: split_large_segment_words)

lemma merged_from_words: "merged_from run c \<Longrightarrow> seg_words c = concat (map seg_words run)"
proof -
  assume "merged_from run c"
  then have "text_lines c = concat (map text_lines run)" by (simp add: merged_from_def)
  then have "seg_words c = concat (map str_split (concat (map text_lines run)))"
    by (simp add: seg_words_def str_split_seg_text)
  also have "\<dots> = concat (map seg_words run)"
    by (induction run) (simp_all add: seg_words_def str_split_seg_text)
  finally show ?thesis .
qed

lemma runs_words:
  "list_all2 merged_from runs cs \<Longrightarrow>
   concat (map seg_words cs) = concat (map seg_words (concat runs))"
  by (induction rule: list_all2_induct) (simp_all add: merged_from_words)

lemma merge_small_words:
  "concat (map seg_words (merge_small segs mn)) = concat (map seg_words segs)"
proof -
  obtain runs where "concat runs = segs" "list_all2 merged_from runs (merge_small segs mn)"
    using merge_small_runs by blast
  then show ?thesis using runs_words by auto
qed

text \<open>
  Claim C2. For every list of segments and every \<open>min_words\<close> and \<open>max_words\<close>, the words
  of the chunks that \<open>enforce_size_constraints\<close> returns, taken in order, are exactly the
  words of the input segments' texts, taken in order: merging and splitting neither lose
  nor duplicate a word.
\<close>

theorem words_preserved:
  "concat (map (\<lambda>c. str_split (seg_text c)) (enforce_size_constraints segs min_words max_words))
   = concat (map (\<lambda>s. str_split (seg_text s)) segs)"
  using split_pass_words [of max_words "merge_small segs min_words" "[]"]
    merge_small_words [of segs min_words]
  by (simp add: enforce_size_constraints_def seg_words_def [abs_def])

section \<open>Size Normalizer: the word-count window\<close>

subsection \<open>A small chunk in the middle of the output\<close>

text \<open>
  The input of the counterexample is a segment of 702 lines, each the one-word sentence
  \<open>a.\<close>, followed by a one-word segment. The lemmas below compute what the split pass
  does with it.
\<close>

lemma strip_a: "str_strip ''a.'' = ''a.''" by code_simp
lemma split_a: "str_split ''a.'' = [''a.'']" by code_simp

lemma words_replicate_a: "concat (replicate n (str_split ''a.'')) = replicate n ''a.''"
  by (induction n) (simp_all add: split_a)

lemma word_count_replicate_a:
  "text_lines seg = replicate n ''a.'' \<Longrightarrow> word_count seg = int n"
  by (simp add: word_count_eq words_replicate_a)

lemma word_count_new_seg_replicate_a:
  "word_count (new_seg seg (replicate n ''a.'')) = int n"
  by (simp add: word_count_new_seg words_replicate_a)

lemma seg_text_replicate_a:
  "text_lines seg = replicate n ''a.'' \<Longrightarrow> seg_text seg = str_join '' '' (replicate n ''a.'')"
  by (simp add: seg_text_def strip_a filter_replicate)

lemma join_replicate_a_head:
  "\<exists>t. str_join '' '' (replicate (Suc n) ''a.'') = CHR ''a'' # t"
  by (cases n) simp_all

lemma sentence_split_replicate_a:
  "sentence_split p [] (str_join '' '' (replicate (Suc n) ''a.'')) = replicate (Suc n) ''a.''"
proof (induction n arbitrary: p)
  case 0
  show ?case by (simp add: isspace_def)
next
  case (Suc n)
  define r where "r = str_join '' '' (replicate (Suc n) ''a.'')"
  obtain t where t: "r = CHR ''a'' # t"
    unfolding r_def using join_replicate_a_head by blast
  have na: "\<not> isspace (CHR ''a'')" and nd: "\<not> isspace (CHR ''.'')" and sp: "isspace (CHR '' '')"
    by (simp_all add: isspace_def)
  have "str_join '' '' (replicate (Suc (Suc n)) ''a.'') = CHR ''a'' # CHR ''.'' # CHR '' '' # r"
    by (simp add: r_def)
  then have "sentence_split p [] (str_join '' '' (replicate (Suc (Suc n)) ''a.''))
        = sentence_split p [] (CHR ''a'' # CHR ''.'' # CHR '' '' # r)"
    by (simp only:)
  also have "\<dots> = ''a.'' # sentence_split (Some (CHR '' '')) [] r"
    by (simp add: na nd sp is_sentence_end_def t)
  also have "sentence_split (Some (CHR '' '')) [] r = replicate (Suc n) ''a.''"
    unfolding r_def by (rule Suc.IH)
  finally show ?case by simp
qed

lemma split_step_a:
  "split_step seg mx ''a.'' st =
     (if current_sentences st \<noteq> [] \<and> current_wc st + 1 > mx
      then \<lparr>chunks = chunks st @ [new_seg seg (current_sentences st)],
            current_sentences = [''a.''], current_wc = 1\<rparr>
      else \<lparr>chunks = chunks st, current_sentences = current_sentences st @ [''a.''],
            current_wc = current_wc st + 1\<rparr>)"
  by (simp add: split_step_def strip_a split_a)

lemma split_loop_fill:
  "int k + int n \<le> mx \<Longrightarrow>
   split_loop seg mx (replicate n ''a.'')
     \<lparr>chunks = cs, current_sentences = replicate k ''a.'', current_wc = int k\<rparr>
   = \<lparr>chunks = cs, current_sentences = replicate (k + n) ''a.'', current_wc = int (k + n)\<rparr>"
proof (induction n arbitrary: k)
  case 0
  then show ?case by simp
next
  case (Suc n)
  from Suc.prems have le: "int (Suc k) + int n \<le> mx" and no: "\<not> int k + 1 > mx" by simp_all
  have "split_step seg mx ''a.''
          \<lparr>chunks = cs, current_sentences = replicate k ''a.'', current_wc = int k\<rparr>
        = \<lparr>chunks = cs, current_sentences = replicate (Suc k) ''a.'', current_wc = int (Suc k)\<rparr>"
    using no by (simp add: split_step_a replicate_append_same)
  then show ?case using Suc.IH [OF le] by simp
qed

lemma split_loop_append:
  "split_loop seg mx (xs @ ys) st = split_loop seg mx ys (split_loop seg mx xs st)"
  by (induction xs arbitrary: st) simp_all

lemma split_large_segment_a:
  assumes "text_lines seg = replicate (700 + 2) ''a.''"
  shows "split_large_segment seg 700
         = [new_seg seg (replicate 700 ''a.''), new_seg seg [''a.'', ''a.'']]"
proof -
  have wc: "word_count seg = 702"
    using word_count_replicate_a [OF assms] by simp
  have t: "seg_text seg = str_join '' '' (replicate (Suc 701) ''a.'')"
    using seg_text_replicate_a [OF assms] by simp
  have sents: "re_split_sentences (seg_text seg) = replicate 700 ''a.'' @ [''a.'', ''a.'']"
  proof -
    have "re_split_sentences (seg_text seg) = replicate (Suc 701) ''a.''"
      unfolding re_split_sentences_def t by (rule sentence_split_replicate_a)
    also have "Suc 701 = 700 + 2" by simp
    also have "replicate (700 + 2) ''a.'' = replicate 700 ''a.'' @ replicate 2 ''a.''"
      by (rule replicate_add)
    also have "replicate 2 ''a.'' = [''a.'', ''a.'']" by (simp add: numeral_2_eq_2)
    finally show ?thesis .
  qed
  have fill: "split_loop seg 700 (replicate 700 ''a.'')
                \<lparr>chunks = [], current_sentences = [], current_wc = 0\<rparr>
              = \<lparr>chunks = [], current_sentences = replicate 700 ''a.'', current_wc = 700\<rparr>"
    using split_loop_fill [of 0 700 700 seg "[]"] by simp
  have ne: "replicate 700 ''a.'' \<noteq> []" by simp
  have "split_loop seg 700 (re_split_sentences (seg_text seg))
          \<lparr>chunks = [], current_sentences = [], current_wc = 0\<rparr>
        = \<lparr>chunks = [new_seg seg (replicate 700 ''a.'')],
           current_sentences = [''a.'', ''a.''], current_wc = 2\<rparr>"
    unfolding sents split_loop_append fill
    by (simp add: split_step_a ne)
  with wc show ?thesis
    by (simp add: split_large_segment_def)
qed

text \<open>
  Claim C3, as stated, fails. With \<open>min_words = 150\<close> and \<open>max_words = 700\<close> the segment
  of 702 one-word sentences is split into a chunk of 700 words and a chunk of 2 words,
  and the one-word segment follows: the second of the three chunks is neither the first
  nor the last, consists of two sentences, none of them oversized, and has 2 words.
\<close>

theorem small_chunk_in_the_middle:
  "map word_count
     (enforce_size_constraints
        [\<lparr>start_line = 1, end_line = 702, chapter_lbl = None, section_lbl = None,
          heading = None, text_lines = replicate 702 ''a.''\<rparr>,
         \<lparr>start_line = 703, end_line = 703, chapter_lbl = None, section_lbl = None,
          heading = None, text_lines = [''b'']\<rparr>] 150 700)
   = [700, 2, 1]
   \<and> text_lines
       (enforce_size_constraints
        [\<lparr>start_line = 1, end_line = 702, chapter_lbl = None, section_lbl = None,
          heading = None, text_lines = replicate 702 ''a.''\<rparr>,
         \<lparr>start_line = 703, end_line = 703, chapter_lbl = None, section_lbl = None,
          heading = None, text_lines = [''b'']\<rparr>] 150 700 ! 1)
     = [''a. a.'']"
proof -
  let ?a = "\<lparr>start_line = 1, end_line = 702, chapter_lbl = None, section_lbl = None,
          heading = None, text_lines = replicate 702 ''a.''\<rparr>"
  let ?b = "\<lparr>start_line = 703, end_line = 703, chapter_lbl = None, section_lbl = None,
          heading = None, text_lines = [''b'']\<rparr>"
  have ta: "text_lines ?a = replicate (700 + 2) ''a.''" by simp
  have wa: "word_count ?a = 702"
    using word_count_replicate_a [of ?a 702] by simp
  have wb: "word_count ?b = 1" by code_simp
  have m: "merge_small [?a, ?b] 150 = [?a, ?b]"
    by (simp add: merge_small_def merge_step_None merge_step_Some wa flush_buffer_def)
  have s: "split_large_segment ?a 700
           = [new_seg ?a (replicate 700 ''a.''), new_seg ?a [''a.'', ''a.'']]"
    using ta by (rule split_large_segment_a)
  have e: "enforce_size_constraints [?a, ?b] 150 700
           = [new_seg ?a (replicate 700 ''a.''), new_seg ?a [''a.'', ''a.''], ?b]"
    unfolding enforce_size_constraints_def m by (simp add: wa wb s)
  have w1: "word_count (new_seg ?a (replicate 700 ''a.'')) = 700"
    using word_count_new_seg_replicate_a [of ?a 700] by simp
  have w2: "word_count (new_seg ?a [''a.'', ''a.'']) = 2"
    by (simp add: word_count_new_seg split_a)
  have t2: "text_lines (new_seg ?a [''a.'', ''a.'']) = [''a. a.'']"
    by (simp add: new_seg_def)
  show ?thesis unfolding e by (simp add: w1 w2 wb t2)
qed

subsection \<open>What the two passes guarantee\<close>

lemma split_pass_concat:
  "split_pass mx segs acc
   = acc @ concat (map (\<lambda>m. if mx < word_count m then split_large_segment m mx else [m]) segs)"
  by (induction segs arbitrary: acc) simp_all

lemma merge_step_min:
  "\<forall>m \<in> set (merged st). mn \<le> word_count m \<Longrightarrow>
   \<forall>m \<in> set (merged (merge_step mn seg st)). mn \<le> word_count m"
  by (cases "buffer_seg st") (auto simp: merge_step_None merge_step_Some)

lemma merge_loop_min:
  "\<forall>m \<in> set (merged st). mn \<le> word_count m \<Longrightarrow>
   \<forall>m \<in> set (merged (merge_loop mn segs st)). mn \<le> word_count m"
proof (induction segs arbitrary: st)
  case Nil
  then show ?case by simp
next
  case (Cons seg segs)
  from Cons.prems have "\<forall>m \<in> set (merged (merge_step mn seg st)). mn \<le> word_count m"
    by (rule merge_step_min)
  then show ?case using Cons.IH by simp
qed

lemma butlast_flush_buffer: "set (butlast (merged (flush_buffer st))) \<subseteq> set (merged st)"
  by (cases "buffer_seg st") (auto simp: flush_buffer_def dest: in_set_butlastD)

lemma merge_small_min:
  "\<forall>m \<in> set (butlast (merge_small segs mn)). mn \<le> word_count m"
proof -
  have "\<forall>m \<in> set (merged (merge_loop mn segs \<lparr>merged = [], buffer_seg = None\<rparr>)).
          mn \<le> word_count m"
    by (rule merge_loop_min) simp
  then show ?thesis
    unfolding merge_small_def using butlast_flush_buffer by blast
qed

text \<open>
  Claim C3, amended. With \<open>min_words = 150\<close> and \<open>max_words = 700\<close>, for every input: the
  output is the merged segments in order, each kept whole when it has at most 700 words
  and replaced by its split otherwise; every merged segment except the last has at
  least 150 words, so a chunk that is a whole merged segment other than the last has a
  word count in \<open>[150, 700]\<close>; and every chunk has at most 700 words unless it is a single
  sentence piece of more than 700 words. A chunk produced by splitting has no lower
  bound: the last group of a split can be short wherever it falls in the output.
\<close>

theorem window_after_merge_and_split:
  "enforce_size_constraints segs 150 700
     = concat (map (\<lambda>m. if 700 < word_count m then split_large_segment m 700 else [m])
                   (merge_small segs 150))
   \<and> (\<forall>m \<in> set (butlast (merge_small segs 150)). 150 \<le> word_count m)
   \<and> (\<forall>c \<in> set (enforce_size_constraints segs 150 700).
         word_count c \<le> 700
         \<or> (\<exists>m \<in> set (merge_small segs 150).
               \<exists>s \<in> set (re_split_sentences (seg_text m)).
                 text_lines c = [str_strip s]
                 \<and> 700 < int (length (str_split (str_strip s)))))"
proof (intro conjI)
  show e: "enforce_size_constraints segs 150 700
     = concat (map (\<lambda>m. if 700 < word_count m then split_large_segment m 700 else [m])
                   (merge_small segs 150))"
    by (simp add: enforce_size_constraints_def split_pass_concat)
  show "\<forall>m \<in> set (butlast (merge_small segs 150)). 150 \<le> word_count m"
    by (rule merge_small_min)
  show "\<forall>c \<in> set (enforce_size_constraints segs 150 700).
         word_count c \<le> 700
         \<or> (\<exists>m \<in> set (merge_small segs 150).
               \<exists>s \<in> set (re_split_sentences (seg_text m)).
                 text_lines c = [str_strip s]
                 \<and> 700 < int (length (str_split (str_strip s))))"
  proof
    fix c
    assume "c \<in> set (enforce_size_constraints segs 150 700)"
    with e obtain m where m: "m \<in> set (merge_small segs 150)"
      and c: "c \<in> set (if 700 < word_count m then split_large_segment m 700 else [m])"
      by auto
    show "word_count c \<le> 700
         \<or> (\<exists>m \<in> set (merge_small segs 150).
               \<exists>s \<in> set (re_split_sentences (seg_text m)).
                 text_lines c = [str_strip s]
                 \<and> 700 < int (length (str_split (str_strip s))))"
    proof (cases "700 < word_count m")
      case True
      with c have "within_max m 700 c"
        using split_large_segment_within_max [of m 700] by (simp add: list_all_iff)
      with m show ?thesis unfolding within_max_def by blast
    next
      case False
      with c show ?thesis by simp
    qed
  qed
qed

text \<open>
  A segment of 150 one-word lines followed by a one-word segment: nothing is merged or
  split, the first merged segment has 150 words and both chunks are within 700.
\<close>

theorem window_after_merge_and_split_witness:
  "map word_count
     (merge_small
        [\<lparr>start_line = 1, end_line = 150, chapter_lbl = None, section_lbl = None,
          heading = None, text_lines = replicate 150 ''w''\<rparr>,
         \<lparr>start_line = 151, end_line = 151, chapter_lbl = None, section_lbl = None,
          heading = None, text_lines = [''b'']\<rparr>] 150)
   = [150, 1]
   \<and> map word_count
     (enforce_size_constraints
        [\<lparr>start_line = 1, end_line = 150, chapter_lbl = None, section_lbl = None,
          heading = None, text_lines = replicate 150 ''w''\<rparr>,
         \<lparr>start_line = 151, end_line = 151, chapter_lbl = None, section_lbl = None,
          heading = None, text_lines = [''b'']\<rparr>] 150 700)
   = [150, 1]
   \<and> list_all (\<lambda>m. 150 \<le> word_count m)
        (butlast (merge_small
          [\<lparr>start_line = 1, end_line = 150, chapter_lbl = None, section_lbl = None,
            heading = None, text_lines = replicate 150 ''w''\<rparr>,
           \<lparr>start_line = 151, end_line = 151, chapter_lbl = None, section_lbl = None,
            heading = None, text_lines = [''b'']\<rparr>] 150))
   \<and> list_all (\<lambda>c. word_count c \<le> 700
         \<or> (\<exists>m \<in> set (merge_small
                [\<lparr>start_line = 1, end_line = 150, chapter_lbl = None, section_lbl = None,
                  heading = None, text_lines = replicate 150 ''w''\<rparr>,
                 \<lparr>start_line = 151, end_line = 151, chapter_lbl = None, section_lbl = None,
                  heading = None, text_lines = [''b'']\<rparr>] 150).
               \<exists>s \<in> set (re_split_sentences (seg_text m)).
                 text_lines c = [str_strip s]
                 \<and> 700 < int (length (str_split (str_strip s)))))
        (enforce_size_constraints
          [\<lparr>start_line = 1, end_line = 150, chapter_lbl = None, section_lbl = None,
            heading = None, text_lines = replicate 150 ''w''\<rparr>,
           \<lparr>start_line = 151, end_line = 151, chapter_lbl = None, section_lbl = None,
            heading = None, text_lines = [''b'']\<rparr>] 150 700)"
proof -
  let ?segs = "[\<lparr>start_line = 1, end_line = 150, chapter_lbl = None, section_lbl = None,
          heading = None, text_lines = replicate 150 ''w''\<rparr>,
         \<lparr>start_line = 151, end_line = 151, chapter_lbl = None, section_lbl = None,
          heading = None, text_lines = [''b'']\<rparr>]"
  have a: "map word_count (merge_small ?segs 150) = [150, 1]" by code_simp
  have b: "map word_count (enforce_size_constraints ?segs 150 700) = [150, 1]" by code_simp
  note t = window_after_merge_and_split [of ?segs]
  from t have c: "list_all (\<lambda>m. 150 \<le> word_count m) (butlast (merge_small ?segs 150))"
    unfolding list_all_iff by blast
  from t have d: "list_all (\<lambda>c. word_count c \<le> 700
         \<or> (\<exists>m \<in> set (merge_small ?segs 150).
               \<exists>s \<in> set (re_split_sentences (seg_text m)).
                 text_lines c = [str_strip s]
                 \<and> 700 < int (length (str_split (str_strip s)))))
        (enforce_size_constraints ?segs 150 700)"
    unfolding list_all_iff by blast
  from a b c d show ?thesis by (intro conjI)
qed

end
